theory Spec2Isabelle
  imports Main
begin

section \<open>The type-safe event emitter (src/TypeSafeEventEmitter.ts)\<close>

text \<open>
  The class \<^verbatim>\<open>TypeSafeEventEmitter\<close> keeps two private fields: \<^verbatim>\<open>listeners\<close>, an
  object that maps an event name to a \<^verbatim>\<open>Set\<close> of listener functions, and
  \<^verbatim>\<open>wildcardListeners\<close>, one more \<^verbatim>\<open>Set\<close>. Its methods are \<^verbatim>\<open>on\<close>, \<^verbatim>\<open>once\<close>,
  \<^verbatim>\<open>off\<close>, \<^verbatim>\<open>emit\<close>, \<^verbatim>\<open>getListenerCount\<close> and \<^verbatim>\<open>removeAllListeners\<close>.

  Listeners are functions supplied by the caller. They are compared by reference, they
  may throw, and they may call the emitter again while they run. The embedding therefore
  has three layers: the values that travel through the emitter, the listeners with the
  code they run, and the emitter's methods as functions on an explicit state. A method
  that can throw returns how it ended together with the state it left.
\<close>

subsection \<open>Values\<close>

text \<open>
  A payload is any JavaScript value: a primitive, or an object given by its fields. The
  emitter hands a payload on as it is and never looks into it, so a payload is compared
  by its structure here. \<open>Error m\<close> stands for an instance of \<^verbatim>\<open>Error\<close> with message \<open>m\<close>,
  \<open>TypeError m\<close> for the instance of \<^verbatim>\<open>TypeError\<close> that the language throws when a value
  is used as what it is not (the wording of \<open>m\<close> is the engine's).

  \<open>EventData j e p\<close> is a reference: the \<open>j\<close>-th object that \<^verbatim>\<open>emit\<close> has built for its
  wildcard listeners (line 120), built as \<^verbatim>\<open>{ event: e, payload: p }\<close>. The object is
  mutable; what its two fields hold at a given time is part of the state.
  \<open>Undefined\<close> is the payload of an \<^verbatim>\<open>emit\<close> called with the event name alone.
\<close>

datatype val =
    Undefined
  | Null
  | Bool bool
  | Num int
  | Str string
  | Obj "(string \<times> val) list"
  | Error string
  | TypeError string
  | EventData nat string val

text \<open>The test \<^verbatim>\<open>err instanceof Error\<close> of both catch blocks.\<close>

fun instanceofError :: "val \<Rightarrow> bool" where
  "instanceofError (Error m) = True"
| "instanceofError (TypeError m) = True"
| "instanceofError v = False"

text \<open>How a function call ends: normally, or with a thrown value.\<close>

datatype completion = Normal | Thrown val

subsection \<open>Listeners and the code they run\<close>

text \<open>
  A listener is a function object. \<open>Fn k\<close> is the \<open>k\<close>-th function of the caller;
  \<open>OnceWrapper a e l\<close> is the closure \<^verbatim>\<open>onceWrapper\<close> that \<^verbatim>\<open>once(e, l)\<close> creates, where
  \<open>a\<close> numbers the closures in the order of their creation, so that two calls of
  \<^verbatim>\<open>once\<close> never yield the same object.
\<close>

datatype listener =
    Fn nat
  | OnceWrapper nat string listener

text \<open>
  The body of a caller's function, as far as the emitter can tell: it returns, it throws
  a value, or it calls a public method of the emitter and goes on. The listener it
  passes to \<^verbatim>\<open>on\<close>, \<^verbatim>\<open>once\<close> or \<^verbatim>\<open>off\<close> is a function of the caller, given by its
  number: the closures of \<^verbatim>\<open>once\<close> never leave the emitter. After a call of a
  method that can throw, the body goes on according to how the call ended, so it may
  catch what the method throws or let it pass. \<open>Read\<close> and \<open>Write\<close> give the body
  variables of its own (a closure's state, of type \<open>'h\<close>), so a listener may behave
  differently from one call to the next. \<open>ReadEventData\<close> and \<open>WriteEventData\<close> read
  and assign the two fields of an event data object that the body holds a reference
  to.
\<close>

datatype 'h body =
    Return
  | Throw val
  | CallOn string nat "completion \<Rightarrow> 'h body"
  | CallOnce string nat "completion \<Rightarrow> 'h body"
  | CallOff string nat "completion \<Rightarrow> 'h body"
  | CallEmit string val "completion \<Rightarrow> 'h body"
  | CallRemoveAllListeners "string option" "'h body"
  | CallGetListenerCount string "nat \<Rightarrow> 'h body"
  | Read "'h \<Rightarrow> 'h body"
  | Write 'h "'h body"
  | ReadEventData nat "val \<times> val \<Rightarrow> 'h body"
  | WriteEventData nat val val "'h body"

text \<open>
  What a body without a \<^verbatim>\<open>try\<close> does after a call: it goes on when the call has
  returned, and ends with the thrown value otherwise.
\<close>

definition or_rethrow :: "'h body \<Rightarrow> completion \<Rightarrow> 'h body" where
  "or_rethrow k c = (case c of Normal \<Rightarrow> k | Thrown v \<Rightarrow> Throw v)"

subsection \<open>The state\<close>

text \<open>
  The place a listener is called from: the loop over the event's listeners in \<^verbatim>\<open>emit\<close>
  (line 109), the loop over the wildcard listeners (line 123), each with the number of
  the \<^verbatim>\<open>emit\<close> call that runs the loop, or the body of a \<^verbatim>\<open>onceWrapper\<close> (line 70).
\<close>

datatype site =
    CategoryLoop nat
  | WildcardLoop nat
  | OnceBody listener

text \<open>
  A JavaScript \<^verbatim>\<open>Set\<close> keeps its elements in insertion order and holds none twice: it is
  a list here. \<open>listeners\<close> holds the own properties of the object \<^verbatim>\<open>listeners\<close>,
  \<open>wildcardListeners\<close> is the other field of the class. \<open>closures\<close> counts the wrappers
  created so far, \<open>heap\<close> holds the listeners' own variables, and \<open>eventData\<close> holds the
  fields \<^verbatim>\<open>event\<close> and \<^verbatim>\<open>payload\<close> of every event data object built so far.
  \<open>emissions\<close> counts the calls of \<^verbatim>\<open>emit\<close> and \<open>calls\<close> records every call of a
  listener (where from, which listener, which argument); the code has neither, they only
  make "this emission invoked that listener" a statement about the state.
\<close>

record 'h emitter =
  listeners :: "string \<rightharpoonup> listener list"
  wildcardListeners :: "listener list"
  closures :: nat
  heap :: 'h
  eventData :: "(val \<times> val) list"
  emissions :: nat
  calls :: "(site \<times> listener \<times> val) list"

text \<open>\<^verbatim>\<open>new TypeSafeEventEmitter()\<close>: both fields empty.\<close>

definition new_emitter :: "'h \<Rightarrow> 'h emitter" where
  "new_emitter h =
     \<lparr>listeners = Map.empty, wildcardListeners = [], closures = 0, heap = h,
      eventData = [], emissions = 0, calls = []\<rparr>"

text \<open>\<^verbatim>\<open>Set.prototype.add\<close> and \<^verbatim>\<open>Set.prototype.delete\<close>.\<close>

definition set_add :: "listener list \<Rightarrow> listener \<Rightarrow> listener list" where
  "set_add s l = (if l \<in> set s then s else s @ [l])"

definition set_delete :: "listener list \<Rightarrow> listener \<Rightarrow> listener list" where
  "set_delete s l = removeAll l s"

text \<open>
  The field \<^verbatim>\<open>listeners\<close> is initialised with \<^verbatim>\<open>{}\<close>, an ordinary object, so
  \<^verbatim>\<open>this.listeners[eventName]\<close> finds an own property first and then what the object
  inherits from \<^verbatim>\<open>Object.prototype\<close>. The inherited properties are the language's, not
  the repository's: the methods of \<^verbatim>\<open>Object.prototype\<close> and its accessor \<^verbatim>\<open>__proto__\<close>.
  Each of them is truthy, none of them is a \<^verbatim>\<open>Set\<close>, none has a property \<^verbatim>\<open>add\<close>,
  \<^verbatim>\<open>delete\<close> or \<^verbatim>\<open>size\<close>, and none can be iterated.
\<close>

definition inherited :: "string \<Rightarrow> bool" where
  "inherited e =
     (e \<in> set [''constructor'', ''hasOwnProperty'', ''isPrototypeOf'', ''propertyIsEnumerable'',
        ''toLocaleString'', ''toString'', ''valueOf'', ''__defineGetter__'', ''__defineSetter__'',
        ''__lookupGetter__'', ''__lookupSetter__'', ''__proto__''])"

datatype found = Missing | Inherited | ListenerSet "listener list"

definition property :: "string \<Rightarrow> 'h emitter \<Rightarrow> found" where
  "property eventName st =
     (case listeners st eventName of
        Some s \<Rightarrow> ListenerSet s
      | None \<Rightarrow> if inherited eventName then Inherited else Missing)"

subsection \<open>on, once, off, getListenerCount, removeAllListeners\<close>

text \<open>
  \<^verbatim>\<open>on\<close> creates the set when the lookup is falsy and then calls \<^verbatim>\<open>add\<close> on what the
  lookup gives. For an inherited name that is not a set, and the call of \<^verbatim>\<open>add\<close>
  throws a \<^verbatim>\<open>TypeError\<close>.
\<close>

definition on :: "string \<Rightarrow> listener \<Rightarrow> 'h emitter \<Rightarrow> completion \<times> 'h emitter" where
  "on eventName listener st =
     (if eventName = ''*''
      then (Normal, st\<lparr>wildcardListeners := set_add (wildcardListeners st) listener\<rparr>)
      else (case property eventName st of
              Missing \<Rightarrow>
                (Normal, st\<lparr>listeners := (listeners st)(eventName \<mapsto> set_add [] listener)\<rparr>)
            | ListenerSet s \<Rightarrow>
                (Normal, st\<lparr>listeners := (listeners st)(eventName \<mapsto> set_add s listener)\<rparr>)
            | Inherited \<Rightarrow>
                (Thrown (TypeError ''this.listeners[eventName].add is not a function''), st)))"

text \<open>
  \<^verbatim>\<open>off\<close> calls \<^verbatim>\<open>delete\<close> on what the lookup gives when that is truthy.
\<close>

definition off :: "string \<Rightarrow> listener \<Rightarrow> 'h emitter \<Rightarrow> completion \<times> 'h emitter" where
  "off eventName listener st =
     (if eventName = ''*''
      then (Normal, st\<lparr>wildcardListeners := set_delete (wildcardListeners st) listener\<rparr>)
      else (case property eventName st of
              Missing \<Rightarrow> (Normal, st)
            | ListenerSet eventListeners \<Rightarrow>
                (Normal,
                 st\<lparr>listeners := (listeners st)(eventName \<mapsto> set_delete eventListeners listener)\<rparr>)
            | Inherited \<Rightarrow>
                (Thrown (TypeError ''eventListeners.delete is not a function''), st)))"

text \<open>
  \<^verbatim>\<open>once\<close> creates the closure and registers it with \<^verbatim>\<open>on\<close>. What the closure does when
  it is called is part of \<open>invoke\<close> below.
\<close>

definition once :: "string \<Rightarrow> listener \<Rightarrow> 'h emitter \<Rightarrow> completion \<times> 'h emitter" where
  "once eventName listener st =
     on eventName (OnceWrapper (closures st) eventName listener)
        (st\<lparr>closures := Suc (closures st)\<rparr>)"

text \<open>
  \<^verbatim>\<open>this.listeners[eventName]?.size || 0\<close>: what is not a set has no \<^verbatim>\<open>size\<close>.
\<close>

definition getListenerCount :: "string \<Rightarrow> 'h emitter \<Rightarrow> nat" where
  "getListenerCount eventName st =
     (if eventName = ''*'' then length (wildcardListeners st)
      else (case property eventName st of
              ListenerSet s \<Rightarrow> length s
            | Missing \<Rightarrow> 0
            | Inherited \<Rightarrow> 0))"

text \<open>
  The optional argument of \<^verbatim>\<open>removeAllListeners\<close> is \<open>None\<close> when it is left out
  (\<^verbatim>\<open>undefined\<close>, which the test \<^verbatim>\<open>if (eventName)\<close> rejects). For a string the test
  is JavaScript's truthiness: only the empty string fails it. \<^verbatim>\<open>delete\<close> removes an own
  property and leaves what is inherited.
\<close>

definition truthy :: "string \<Rightarrow> bool" where
  "truthy e = (e \<noteq> [])"

definition removeAllListeners :: "string option \<Rightarrow> 'h emitter \<Rightarrow> 'h emitter" where
  "removeAllListeners eventName st =
     (case eventName of
        None \<Rightarrow> st\<lparr>listeners := Map.empty, wildcardListeners := []\<rparr>
      | Some e \<Rightarrow>
          if truthy e
          then (if e = ''*''
                then st\<lparr>wildcardListeners := []\<rparr>
                else st\<lparr>listeners := (listeners st)(e := None)\<rparr>)
          else st\<lparr>listeners := Map.empty, wildcardListeners := []\<rparr>)"

subsection \<open>Running a listener\<close>

text \<open>
  The two fields of the \<open>j\<close>-th event data object. A body only holds references that
  \<^verbatim>\<open>emit\<close> has handed out; for a number that is no reference the read gives
  \<^verbatim>\<open>undefined\<close> twice and the assignment does nothing.
\<close>

definition fields :: "'h emitter \<Rightarrow> nat \<Rightarrow> val \<times> val" where
  "fields st j = (if j < length (eventData st) then eventData st ! j else (Undefined, Undefined))"

definition assign :: "nat \<Rightarrow> val \<Rightarrow> val \<Rightarrow> 'h emitter \<Rightarrow> 'h emitter" where
  "assign j e p st = st\<lparr>eventData := (eventData st)[j := (e, p)]\<rparr>"

text \<open>
  A listener's body is run against the state. The calls of \<^verbatim>\<open>emit\<close> it makes go to
  \<open>em\<close>, the emitter's own \<^verbatim>\<open>emit\<close>, which is defined last; \<open>None\<close> means that such a
  call did not return.
\<close>

primrec exec ::
  "(string \<Rightarrow> val \<Rightarrow> 'h emitter \<Rightarrow> (completion \<times> 'h emitter) option) \<Rightarrow> 'h body \<Rightarrow> 'h emitter
     \<Rightarrow> (completion \<times> 'h emitter) option" where
  "exec em Return st = Some (Normal, st)"
| "exec em (Throw v) st = Some (Thrown v, st)"
| "exec em (CallOn e f k) st = exec em (k (fst (on e (Fn f) st))) (snd (on e (Fn f) st))"
| "exec em (CallOnce e f k) st = exec em (k (fst (once e (Fn f) st))) (snd (once e (Fn f) st))"
| "exec em (CallOff e f k) st = exec em (k (fst (off e (Fn f) st))) (snd (off e (Fn f) st))"
| "exec em (CallEmit e p k) st =
     (case em e p st of None \<Rightarrow> None | Some r \<Rightarrow> exec em (k (fst r)) (snd r))"
| "exec em (CallRemoveAllListeners e k) st = exec em k (removeAllListeners e st)"
| "exec em (CallGetListenerCount e k) st = exec em (k (getListenerCount e st)) st"
| "exec em (Read k) st = exec em (k (heap st)) st"
| "exec em (Write h k) st = exec em k (st\<lparr>heap := h\<rparr>)"
| "exec em (ReadEventData j k) st = exec em (k (fields st j)) st"
| "exec em (WriteEventData j e p k) st = exec em k (assign j e p st)"

definition record_call :: "site \<Rightarrow> listener \<Rightarrow> val \<Rightarrow> 'h emitter \<Rightarrow> 'h emitter" where
  "record_call s l a st = st\<lparr>calls := calls st @ [(s, l, a)]\<rparr>"

text \<open>
  Calling a listener with one argument. \<open>code k a\<close> is the body of the caller's function
  \<open>Fn k\<close> for the argument \<open>a\<close>. The wrapper of \<^verbatim>\<open>once\<close> is
  \<^verbatim>\<open>(payload) => { listener(payload); this.off(eventName, onceWrapper); }\<close>:
  when the listener throws, the statement after it does not run.
\<close>

fun invoke ::
  "(string \<Rightarrow> val \<Rightarrow> 'h emitter \<Rightarrow> (completion \<times> 'h emitter) option) \<Rightarrow> (nat \<Rightarrow> val \<Rightarrow> 'h body)
     \<Rightarrow> listener \<Rightarrow> val \<Rightarrow> 'h emitter \<Rightarrow> (completion \<times> 'h emitter) option" where
  "invoke em code (Fn k) a st = exec em (code k a) st"
| "invoke em code (OnceWrapper n e l) a st =
     (case invoke em code l a (record_call (OnceBody (OnceWrapper n e l)) l a st) of
        None \<Rightarrow> None
      | Some (Normal, st') \<Rightarrow> Some (off e (OnceWrapper n e l) st')
      | Some (Thrown v, st') \<Rightarrow> Some (Thrown v, st'))"

subsection \<open>emit\<close>

text \<open>
  The value a catch block passes on:
  \<^verbatim>\<open>err instanceof Error ? err : new Error(message)\<close>.
\<close>

definition caught :: "string \<Rightarrow> val \<Rightarrow> val" where
  "caught message err = (if instanceofError err then err else Error message)"

text \<open>
  \<^verbatim>\<open>[...snapshot].forEach((listener) => { try { listener(a) } catch (err) { this.emit('error', ...) } })\<close>
  over a copy of a listener set, the same loop for both sets. The call of \<^verbatim>\<open>emit\<close> in the
  catch block stands outside the \<^verbatim>\<open>try\<close>: what it throws ends the loop.
\<close>

fun deliver ::
  "(string \<Rightarrow> val \<Rightarrow> 'h emitter \<Rightarrow> (completion \<times> 'h emitter) option) \<Rightarrow> (nat \<Rightarrow> val \<Rightarrow> 'h body)
     \<Rightarrow> site \<Rightarrow> string \<Rightarrow> listener list \<Rightarrow> val \<Rightarrow> 'h emitter
     \<Rightarrow> (completion \<times> 'h emitter) option" where
  "deliver em code s message [] a st = Some (Normal, st)"
| "deliver em code s message (l # ls) a st =
     (case invoke em code l a (record_call s l a st) of
        None \<Rightarrow> None
      | Some (Normal, st') \<Rightarrow> deliver em code s message ls a st'
      | Some (Thrown err, st') \<Rightarrow>
          (case em ''error'' (caught message err) st' of
             None \<Rightarrow> None
           | Some (Normal, st'') \<Rightarrow> deliver em code s message ls a st''
           | Some (Thrown v, st'') \<Rightarrow> Some (Thrown v, st'')))"

text \<open>
  The first half of \<^verbatim>\<open>emit\<close> (lines 105 to 116): the listeners of the event. What the
  lookup gives is spread into an array when it is truthy; spreading what cannot be
  iterated throws a \<^verbatim>\<open>TypeError\<close>, out of \<^verbatim>\<open>emit\<close>.
\<close>

definition notify_specific ::
  "(string \<Rightarrow> val \<Rightarrow> 'h emitter \<Rightarrow> (completion \<times> 'h emitter) option) \<Rightarrow> (nat \<Rightarrow> val \<Rightarrow> 'h body)
     \<Rightarrow> nat \<Rightarrow> string \<Rightarrow> val \<Rightarrow> 'h emitter \<Rightarrow> (completion \<times> 'h emitter) option" where
  "notify_specific em code i eventName payload st =
     (case property eventName st of
        Missing \<Rightarrow> Some (Normal, st)
      | ListenerSet eventListeners \<Rightarrow>
          deliver em code (CategoryLoop i) ''An error occurred in a listener.''
            eventListeners payload st
      | Inherited \<Rightarrow> Some (Thrown (TypeError ''eventListeners is not iterable''), st))"

text \<open>
  The second half (lines 119 to 129): the wildcard listeners. One object
  \<^verbatim>\<open>wildcardEventData\<close> is built and the reference to it is handed to every listener of
  the copy.
\<close>

definition notify_wildcard ::
  "(string \<Rightarrow> val \<Rightarrow> 'h emitter \<Rightarrow> (completion \<times> 'h emitter) option) \<Rightarrow> (nat \<Rightarrow> val \<Rightarrow> 'h body)
     \<Rightarrow> nat \<Rightarrow> string \<Rightarrow> val \<Rightarrow> 'h emitter \<Rightarrow> (completion \<times> 'h emitter) option" where
  "notify_wildcard em code i eventName payload st =
     (if length (wildcardListeners st) > 0
      then deliver em code (WildcardLoop i) ''An error occurred in a wildcard listener.''
             (wildcardListeners st) (EventData (length (eventData st)) eventName payload)
             (st\<lparr>eventData := eventData st @ [(Str eventName, payload)]\<rparr>)
      else Some (Normal, st))"

text \<open>
  \<^verbatim>\<open>emit\<close> calls itself from its catch blocks, and a listener may call it too, so it need
  not return. The first argument bounds the depth to which calls of \<^verbatim>\<open>emit\<close> may nest
  (the room on the call stack); \<open>None\<close> says that this depth did not suffice. \<^verbatim>\<open>emit\<close>
  returns or throws when some depth gives \<open>Some\<close> (every larger depth then gives the
  same, lemma \<open>emit_more_room\<close>), and recurses without end when none does.
\<close>

primrec emit ::
  "nat \<Rightarrow> (nat \<Rightarrow> val \<Rightarrow> 'h body) \<Rightarrow> string \<Rightarrow> val \<Rightarrow> 'h emitter
     \<Rightarrow> (completion \<times> 'h emitter) option" where
  "emit 0 code eventName payload st = None"
| "emit (Suc n) code eventName payload st =
     (case notify_specific (emit n code) code (emissions st) eventName payload
             (st\<lparr>emissions := Suc (emissions st)\<rparr>) of
        None \<Rightarrow> None
      | Some (Normal, st') \<Rightarrow>
          notify_wildcard (emit n code) code (emissions st) eventName payload st'
      | Some (Thrown v, st') \<Rightarrow> Some (Thrown v, st'))"

subsection \<open>What the statements below speak about\<close>

text \<open>
  The listeners of an event as \<^verbatim>\<open>emit\<close> reads them (the constant \<^verbatim>\<open>eventListeners\<close> of the
  source; none when the event has no set), and the set that \<^verbatim>\<open>getListenerCount\<close>, \<^verbatim>\<open>on\<close>
  and \<^verbatim>\<open>off\<close> consult for an event name, which is the wildcard set for \<^verbatim>\<open>'*'\<close>.
\<close>

definition eventListeners :: "string \<Rightarrow> 'h emitter \<Rightarrow> listener list" where
  "eventListeners eventName st = (case listeners st eventName of None \<Rightarrow> [] | Some s \<Rightarrow> s)"

definition registered :: "string \<Rightarrow> 'h emitter \<Rightarrow> listener list" where
  "registered eventName st =
     (if eventName = ''*'' then wildcardListeners st else eventListeners eventName st)"

text \<open>
  The calls that a run from \<open>st\<close> to \<open>st'\<close> made from the site \<open>s\<close>, in order, and the calls
  it made from the two loops of the emission number \<open>i\<close>.
\<close>

definition calls_from :: "site \<Rightarrow> 'h emitter \<Rightarrow> 'h emitter \<Rightarrow> (listener \<times> val) list" where
  "calls_from s st st' = map snd (filter (\<lambda>c. fst c = s) (drop (length (calls st)) (calls st')))"

definition calls_of :: "nat \<Rightarrow> 'h emitter \<Rightarrow> 'h emitter \<Rightarrow> (site \<times> listener \<times> val) list" where
  "calls_of i st st' =
     filter (\<lambda>c. fst c = CategoryLoop i \<or> fst c = WildcardLoop i) (drop (length (calls st)) (calls st'))"

text \<open>
  The state a call has left when it has returned; \<open>None\<close> when it has thrown or has not
  come back.
\<close>

definition returned :: "(completion \<times> 'h emitter) option \<Rightarrow> 'h emitter option" where
  "returned r = (case r of Some (Normal, st) \<Rightarrow> Some st | _ \<Rightarrow> None)"

text \<open>
  The state in which the first loop of \<^verbatim>\<open>emit\<close> ends (\<open>None\<close> when it does not end, or
  ends by throwing). The wildcard listeners registered then are the set that line 121
  copies, and the object of line 120 is the next one to be built in that state.
\<close>

definition after_category ::
  "nat \<Rightarrow> (nat \<Rightarrow> val \<Rightarrow> 'h body) \<Rightarrow> string \<Rightarrow> val \<Rightarrow> 'h emitter \<Rightarrow> 'h emitter option" where
  "after_category n code eventName payload st =
     returned (notify_specific (emit n code) code (emissions st) eventName payload
                 (st\<lparr>emissions := Suc (emissions st)\<rparr>))"

definition wildcard_snapshot ::
  "nat \<Rightarrow> (nat \<Rightarrow> val \<Rightarrow> 'h body) \<Rightarrow> string \<Rightarrow> val \<Rightarrow> 'h emitter \<Rightarrow> listener list option" where
  "wildcard_snapshot n code eventName payload st =
     map_option wildcardListeners (after_category n code eventName payload st)"

definition wildcardEventData ::
  "nat \<Rightarrow> (nat \<Rightarrow> val \<Rightarrow> 'h body) \<Rightarrow> string \<Rightarrow> val \<Rightarrow> 'h emitter \<Rightarrow> val option" where
  "wildcardEventData n code eventName payload st =
     map_option (\<lambda>st1. EventData (length (eventData st1)) eventName payload)
       (after_category n code eventName payload st)"

text \<open>
  The state in which the second loop starts: the object of line 120 has been built.
\<close>

definition built :: "string \<Rightarrow> val \<Rightarrow> 'h emitter \<Rightarrow> 'h emitter" where
  "built eventName payload st = st\<lparr>eventData := eventData st @ [(Str eventName, payload)]\<rparr>"

text \<open>
  No listener set holds a listener twice. Every method keeps it so (section "The listener
  sets hold no listener twice"), and it holds of a new emitter.
\<close>

definition sets_ok :: "'h emitter \<Rightarrow> bool" where
  "sets_ok st =
     (distinct (wildcardListeners st) \<and> (\<forall>e s. listeners st e = Some s \<longrightarrow> distinct s))"

text \<open>
  The closure of \<^verbatim>\<open>once\<close> ends with a call of \<^verbatim>\<open>off\<close>, which throws for an inherited
  event name. \<^verbatim>\<open>once\<close> registers no closure for such a name (its call of \<^verbatim>\<open>on\<close> throws
  first), and \<^verbatim>\<open>on\<close> creates no set for one. \<open>sane_state\<close> says so of a state: no
  inherited name has a set, and no listener set holds a closure made for an inherited
  name. Every method keeps it so, and it holds of a new emitter.
\<close>

fun sane :: "listener \<Rightarrow> bool" where
  "sane (Fn k) = True"
| "sane (OnceWrapper n e l) = (\<not> inherited e \<and> sane l)"

definition sane_state :: "'h emitter \<Rightarrow> bool" where
  "sane_state st =
     ((\<forall>l \<in> set (wildcardListeners st). sane l) \<and>
      (\<forall>e s. listeners st e = Some s \<longrightarrow> \<not> inherited e \<and> (\<forall>l \<in> set s. sane l)))"

text \<open>
  Bodies that never call \<^verbatim>\<open>emit\<close> (\<open>emit_free\<close>), that never throw (\<open>throw_free\<close>), that
  never assign to a field of an event data object (\<open>write_free\<close>), each however the
  calls they make end. Listeners that let \<^verbatim>\<open>emit\<close> return (\<open>well_behaved\<close>): no body calls
  \<^verbatim>\<open>emit\<close>, and no body throws when its argument is an \<^verbatim>\<open>Error\<close> or the event data of
  an \<^verbatim>\<open>'error'\<close> event.
\<close>

primrec emit_free :: "'h body \<Rightarrow> bool" where
  "emit_free Return = True"
| "emit_free (Throw v) = True"
| "emit_free (CallOn e l k) = (\<forall>c. emit_free (k c))"
| "emit_free (CallOnce e l k) = (\<forall>c. emit_free (k c))"
| "emit_free (CallOff e l k) = (\<forall>c. emit_free (k c))"
| "emit_free (CallEmit e p k) = False"
| "emit_free (CallRemoveAllListeners e k) = emit_free k"
| "emit_free (CallGetListenerCount e f) = (\<forall>n. emit_free (f n))"
| "emit_free (Read f) = (\<forall>h. emit_free (f h))"
| "emit_free (Write h k) = emit_free k"
| "emit_free (ReadEventData j f) = (\<forall>x. emit_free (f x))"
| "emit_free (WriteEventData j e p k) = emit_free k"

primrec throw_free :: "'h body \<Rightarrow> bool" where
  "throw_free Return = True"
| "throw_free (Throw v) = False"
| "throw_free (CallOn e l k) = (\<forall>c. throw_free (k c))"
| "throw_free (CallOnce e l k) = (\<forall>c. throw_free (k c))"
| "throw_free (CallOff e l k) = (\<forall>c. throw_free (k c))"
| "throw_free (CallEmit e p k) = (\<forall>c. throw_free (k c))"
| "throw_free (CallRemoveAllListeners e k) = throw_free k"
| "throw_free (CallGetListenerCount e f) = (\<forall>n. throw_free (f n))"
| "throw_free (Read f) = (\<forall>h. throw_free (f h))"
| "throw_free (Write h k) = throw_free k"
| "throw_free (ReadEventData j f) = (\<forall>x. throw_free (f x))"
| "throw_free (WriteEventData j e p k) = throw_free k"

primrec write_free :: "'h body \<Rightarrow> bool" where
  "write_free Return = True"
| "write_free (Throw v) = True"
| "write_free (CallOn e l k) = (\<forall>c. write_free (k c))"
| "write_free (CallOnce e l k) = (\<forall>c. write_free (k c))"
| "write_free (CallOff e l k) = (\<forall>c. write_free (k c))"
| "write_free (CallEmit e p k) = (\<forall>c. write_free (k c))"
| "write_free (CallRemoveAllListeners e k) = write_free k"
| "write_free (CallGetListenerCount e f) = (\<forall>n. write_free (f n))"
| "write_free (Read f) = (\<forall>h. write_free (f h))"
| "write_free (Write h k) = write_free k"
| "write_free (ReadEventData j f) = (\<forall>x. write_free (f x))"
| "write_free (WriteEventData j e p k) = False"

definition well_behaved :: "(nat \<Rightarrow> val \<Rightarrow> 'h body) \<Rightarrow> bool" where
  "well_behaved code =
     ((\<forall>k a. emit_free (code k a)) \<and>
      (\<forall>k v. instanceofError v \<longrightarrow>
         throw_free (code k v) \<and> (\<forall>j. throw_free (code k (EventData j ''error'' v)))))"

text \<open>
  A listener throws in the middle of an emission. \<open>specific_throws\<close>: in \<^verbatim>\<open>emit(C, p)\<close>,
  called in state \<open>st\<close>, the loop over the listeners of \<open>C\<close> has run through the listeners
  \<open>pre\<close> and stands in state \<open>sta\<close>; the next listener \<open>l\<close> is called and throws \<open>F\<close>,
  which leaves state \<open>stb\<close>; the listeners \<open>post\<close> are still to come. \<open>wildcard_throws\<close>:
  the same in the loop over the wildcard listeners, which are called with the reference
  \<open>d\<close>.
\<close>

definition specific_throws ::
  "nat \<Rightarrow> (nat \<Rightarrow> val \<Rightarrow> 'h body) \<Rightarrow> string \<Rightarrow> val \<Rightarrow> 'h emitter \<Rightarrow>
     listener list \<Rightarrow> listener \<Rightarrow> listener list \<Rightarrow> 'h emitter \<Rightarrow> val \<Rightarrow> 'h emitter \<Rightarrow> bool" where
  "specific_throws n code C p st pre l post sta F stb =
     (eventListeners C st = pre @ l # post \<and>
      deliver (emit n code) code (CategoryLoop (emissions st)) ''An error occurred in a listener.''
        pre p (st\<lparr>emissions := Suc (emissions st)\<rparr>) = Some (Normal, sta) \<and>
      invoke (emit n code) code l p (record_call (CategoryLoop (emissions st)) l p sta)
        = Some (Thrown F, stb))"

definition wildcard_throws ::
  "nat \<Rightarrow> (nat \<Rightarrow> val \<Rightarrow> 'h body) \<Rightarrow> string \<Rightarrow> val \<Rightarrow> 'h emitter \<Rightarrow>
     listener list \<Rightarrow> listener \<Rightarrow> listener list \<Rightarrow> 'h emitter \<Rightarrow> val \<Rightarrow> 'h emitter \<Rightarrow> bool" where
  "wildcard_throws n code C p st pre l post sta F stb =
     (\<exists>st1 d.
        after_category n code C p st = Some st1 \<and>
        wildcardListeners st1 = pre @ l # post \<and>
        d = EventData (length (eventData st1)) C p \<and>
        deliver (emit n code) code (WildcardLoop (emissions st))
          ''An error occurred in a wildcard listener.'' pre d (built C p st1) = Some (Normal, sta) \<and>
        invoke (emit n code) code l d (record_call (WildcardLoop (emissions st)) l d sta)
          = Some (Thrown F, stb))"


text \<open>
  The error event that a run has delivered. The run went from \<open>stb\<close>, the state a
  throwing listener left, to \<open>st'\<close>, with room for \<open>n\<close> nested calls. The nested
  \<^verbatim>\<open>emit('error', payload)\<close> is a full emission of its own: it has returned, and the
  record of \<open>st'\<close> holds its calls: the listeners of \<^verbatim>\<open>'error'\<close> with the payload and
  then the wildcard listeners with the event data of the error event.
\<close>

definition reemitted ::
  "nat \<Rightarrow> (nat \<Rightarrow> val \<Rightarrow> 'h body) \<Rightarrow> val \<Rightarrow> 'h emitter \<Rightarrow> 'h emitter \<Rightarrow> bool" where
  "reemitted n code payload stb st' =
     (\<exists>m stc ws d.
        n = Suc m \<and> emit (Suc m) code ''error'' payload stb = Some (Normal, stc) \<and>
        wildcard_snapshot m code ''error'' payload stb = Some ws \<and>
        wildcardEventData m code ''error'' payload stb = Some d \<and>
        calls_of (emissions stb) stb st' =
          map (\<lambda>l. (CategoryLoop (emissions stb), l, payload)) (eventListeners ''error'' stb) @
          map (\<lambda>l. (WildcardLoop (emissions stb), l, d)) ws)"

subsection \<open>Bookkeeping for the proofs\<close>

fun above :: "nat \<Rightarrow> site \<Rightarrow> bool" where
  "above k (CategoryLoop j) = (k \<le> j)"
| "above k (WildcardLoop j) = (k \<le> j)"
| "above k (OnceBody w) = True"

definition grows :: "nat \<Rightarrow> 'h emitter \<Rightarrow> 'h emitter \<Rightarrow> bool" where
  "grows k st st' =
     (emissions st \<le> emissions st' \<and>
      (\<exists>new. calls st' = calls st @ new \<and> (\<forall>c \<in> set new. above k (fst c))))"

definition sound ::
  "(string \<Rightarrow> val \<Rightarrow> 'h emitter \<Rightarrow> (completion \<times> 'h emitter) option) \<Rightarrow> bool" where
  "sound em = (\<forall>e p st r. em e p st = Some r \<longrightarrow> grows (emissions st) st (snd r))"

definition error_safe ::
  "(string \<Rightarrow> val \<Rightarrow> 'h emitter \<Rightarrow> (completion \<times> 'h emitter) option) \<Rightarrow> bool" where
  "error_safe em = (\<forall>p st r. em ''error'' p st = Some r \<longrightarrow> fst r = Normal)"

definition loop_calls ::
  "site \<Rightarrow> listener list \<Rightarrow> val \<Rightarrow> 'h emitter \<Rightarrow> 'h emitter \<Rightarrow> bool" where
  "loop_calls s ls a st st' =
     (emissions st \<le> emissions st' \<and>
      (\<exists>new. calls st' = calls st @ new \<and>
         (\<forall>c \<in> set new. fst c = s \<or> above (emissions st) (fst c)) \<and>
         filter (\<lambda>c. fst c = s) new = map (\<lambda>l. (s, l, a)) ls))"

definition below :: "site \<Rightarrow> nat \<Rightarrow> bool" where
  "below s k = (\<exists>i < k. s = CategoryLoop i \<or> s = WildcardLoop i)"

text \<open>
  An \<^verbatim>\<open>emit\<close> that keeps the listener sets free of duplicates, and one that gives what
  another one gives, wherever that one gives a result.
\<close>

definition keeps_sets ::
  "(string \<Rightarrow> val \<Rightarrow> 'h emitter \<Rightarrow> (completion \<times> 'h emitter) option) \<Rightarrow> bool" where
  "keeps_sets em = (\<forall>e p st r. em e p st = Some r \<longrightarrow> sets_ok st \<longrightarrow> sets_ok (snd r))"

definition refines ::
  "(string \<Rightarrow> val \<Rightarrow> 'h emitter \<Rightarrow> (completion \<times> 'h emitter) option) \<Rightarrow>
   (string \<Rightarrow> val \<Rightarrow> 'h emitter \<Rightarrow> (completion \<times> 'h emitter) option) \<Rightarrow> bool" where
  "refines em em' = (\<forall>e p st r. em e p st = Some r \<longrightarrow> em' e p st = Some r)"



subsection \<open>Listeners for the examples\<close>

text \<open>
  The functions of a caller, given as the list of their bodies: \<open>Fn k\<close> runs the
  \<open>k\<close>-th body whatever its argument, and a function beyond the list just returns.
\<close>

definition bodies_of :: "'h body list \<Rightarrow> nat \<Rightarrow> val \<Rightarrow> 'h body" where
  "bodies_of bs k a = (if k < length bs then bs ! k else Return)"

text \<open>
  Functions that throw their argument back, unless it is an \<^verbatim>\<open>Error\<close> or the event data
  of one: they fail on ordinary events and handle the error event.
\<close>

definition touchy :: "nat \<Rightarrow> val \<Rightarrow> unit body" where
  "touchy k a =
     (case a of
        EventData j e q \<Rightarrow> (if instanceofError q then Return else Throw a)
      | _ \<Rightarrow> (if instanceofError a then Return else Throw a))"

text \<open>
  The function \<open>Fn 0\<close> always throws an \<^verbatim>\<open>Error\<close>; the others return.
\<close>

definition failing :: "nat \<Rightarrow> val \<Rightarrow> unit body" where
  "failing = bodies_of [Throw (Error ''disk full'')]"

text \<open>
  Functions that change the registry while an emission runs: \<open>Fn 0\<close> registers \<open>Fn 5\<close>
  for \<^verbatim>\<open>'x'\<close> and removes \<open>Fn 2\<close> from it, \<open>Fn 3\<close> removes the wildcard listener \<open>Fn 4\<close>
  and registers \<open>Fn 6\<close> as one.
\<close>

definition busy :: "nat \<Rightarrow> val \<Rightarrow> unit body" where
  "busy = bodies_of
     [CallOn ''x'' 5 (or_rethrow (CallOff ''x'' 2 (or_rethrow Return))),
      Return, Return,
      CallOff ''*'' 4 (or_rethrow (CallOn ''*'' 6 (or_rethrow Return)))]"



text \<open>
  Emitters after a few registrations: two listeners for \<^verbatim>\<open>'ping'\<close> and a wildcard
  listener; the same with a second wildcard listener; two listeners for \<^verbatim>\<open>'x'\<close> and two
  wildcard listeners; a listener for \<^verbatim>\<open>'z'\<close>, one for \<^verbatim>\<open>'error'\<close> and a wildcard listener.
\<close>

definition ping_emitter :: "unit emitter" where
  "ping_emitter =
     snd (on ''*'' (Fn 3) (snd (on ''ping'' (Fn 2) (snd (on ''ping'' (Fn 0) (new_emitter ()))))))"

definition pong_emitter :: "unit emitter" where
  "pong_emitter = snd (on ''*'' (Fn 4) ping_emitter)"

definition busy_emitter :: "unit emitter" where
  "busy_emitter =
     snd (on ''*'' (Fn 4) (snd (on ''*'' (Fn 3) (snd (on ''x'' (Fn 2)
       (snd (on ''x'' (Fn 0) (new_emitter ()))))))))"

definition error_emitter :: "unit emitter" where
  "error_emitter =
     snd (on ''*'' (Fn 3) (snd (on ''error'' (Fn 2) (snd (on ''z'' (Fn 0) (new_emitter ()))))))"

section \<open>Steps that leave the record alone\<close>

lemma on_trace [simp]:
  "emissions (snd (on e l st)) = emissions st" "calls (snd (on e l st)) = calls st"
  by (simp_all add: on_def split: found.splits)

lemma off_trace [simp]:
  "emissions (snd (off e l st)) = emissions st" "calls (snd (off e l st)) = calls st"
  by (simp_all add: off_def split: found.splits)

lemma once_trace [simp]:
  "emissions (snd (once e l st)) = emissions st" "calls (snd (once e l st)) = calls st"
  by (simp_all add: once_def on_def split: found.splits)

lemma removeAllListeners_trace [simp]:
  "emissions (removeAllListeners e st) = emissions st"
  "calls (removeAllListeners e st) = calls st"
  by (simp_all add: removeAllListeners_def split: option.splits)

lemma assign_trace [simp]:
  "emissions (assign j e p st) = emissions st" "calls (assign j e p st) = calls st"
  by (simp_all add: assign_def)

lemma record_call_trace [simp]:
  "emissions (record_call s l a st) = emissions st"
  "calls (record_call s l a st) = calls st @ [(s, l, a)]"
  by (simp_all add: record_call_def)

section \<open>What running a body keeps\<close>

text \<open>
  A relation between the state before and the state after that every step of a body
  keeps is kept by the run of the body, of a listener, of a loop.
\<close>

lemma exec_keeps:
  assumes run: "exec em b st = Some r"
    and free: "\<not> W \<Longrightarrow> write_free b"
    and refl: "\<And>s. R s s"
    and trans: "\<And>a b c. R a b \<Longrightarrow> R b c \<Longrightarrow> R a c"
    and on: "\<And>e k s. R s (snd (on e (Fn k) s))"
    and once: "\<And>e k s. R s (snd (once e (Fn k) s))"
    and off: "\<And>e l s. R s (snd (off e l s))"
    and remove: "\<And>e s. R s (removeAllListeners e s)"
    and heap: "\<And>h s. R s (s\<lparr>heap := h\<rparr>)"
    and assign: "\<And>j e p s. W \<Longrightarrow> R s (assign j e p s)"
    and em: "\<And>e p s r. em e p s = Some r \<Longrightarrow> R s (snd r)"
  shows "R st (snd r)"
  using run free
proof (induction b arbitrary: st)
  case Return
  then show ?case using refl by auto
next
  case (Throw v)
  then show ?case using refl by auto
next
  case (CallOn e f k)
  have "R (snd (on e (Fn f) st)) (snd r)"
    by (rule CallOn.IH[of "k (fst (on e (Fn f) st))"]) (use CallOn.prems in auto)
  with on[of st e f] show ?case by (rule trans)
next
  case (CallOnce e f k)
  have "R (snd (once e (Fn f) st)) (snd r)"
    by (rule CallOnce.IH[of "k (fst (once e (Fn f) st))"]) (use CallOnce.prems in auto)
  with once[of st e f] show ?case by (rule trans)
next
  case (CallOff e f k)
  have "R (snd (off e (Fn f) st)) (snd r)"
    by (rule CallOff.IH[of "k (fst (off e (Fn f) st))"]) (use CallOff.prems in auto)
  with off[of st e "Fn f"] show ?case by (rule trans)
next
  case (CallEmit e p k)
  from CallEmit.prems(1) obtain r1 where r1: "em e p st = Some r1"
    and rest: "exec em (k (fst r1)) (snd r1) = Some r"
    by (auto split: option.splits)
  have "R (snd r1) (snd r)"
    by (rule CallEmit.IH[of "k (fst r1)"]) (use rest CallEmit.prems(2) in auto)
  with em[OF r1] show ?case by (rule trans)
next
  case (CallRemoveAllListeners e k)
  have "R (removeAllListeners e st) (snd r)"
    by (rule CallRemoveAllListeners.IH) (use CallRemoveAllListeners.prems in auto)
  with remove[of st e] show ?case by (rule trans)
next
  case (CallGetListenerCount e k)
  show ?case
    by (rule CallGetListenerCount.IH[of "k (getListenerCount e st)"])
       (use CallGetListenerCount.prems in auto)
next
  case (Read k)
  show ?case by (rule Read.IH[of "k (heap st)"]) (use Read.prems in auto)
next
  case (Write h k)
  have "R (st\<lparr>heap := h\<rparr>) (snd r)" by (rule Write.IH) (use Write.prems in auto)
  with heap[of st h] show ?case by (rule trans)
next
  case (ReadEventData j k)
  show ?case by (rule ReadEventData.IH[of "k (fields st j)"]) (use ReadEventData.prems in \<open>auto simp del: split_paired_All\<close>)
next
  case (WriteEventData j e p k)
  from WriteEventData.prems(2) have W by auto
  have "R (assign j e p st) (snd r)"
    by (rule WriteEventData.IH) (use WriteEventData.prems \<open>W\<close> in auto)
  with assign[OF \<open>W\<close>, of st j e p] show ?case by (rule trans)
qed

lemma invoke_keeps:
  assumes run: "invoke em code l a st = Some r"
    and free: "\<not> W \<Longrightarrow> (\<forall>k a. write_free (code k a))"
    and refl: "\<And>s. R s s"
    and trans: "\<And>a b c. R a b \<Longrightarrow> R b c \<Longrightarrow> R a c"
    and on: "\<And>e k s. R s (snd (on e (Fn k) s))"
    and once: "\<And>e k s. R s (snd (once e (Fn k) s))"
    and off: "\<And>e l s. R s (snd (off e l s))"
    and remove: "\<And>e s. R s (removeAllListeners e s)"
    and heap: "\<And>h s. R s (s\<lparr>heap := h\<rparr>)"
    and assign: "\<And>j e p s. W \<Longrightarrow> R s (assign j e p s)"
    and rcall: "\<And>w l a s. R s (record_call (OnceBody w) l a s)"
    and em: "\<And>e p s r. em e p s = Some r \<Longrightarrow> R s (snd r)"
  shows "R st (snd r)"
  using run
proof (induction l arbitrary: st r)
  case (Fn k)
  then have "exec em (code k a) st = Some r" by simp
  then show ?case
  proof (rule exec_keeps[where R=R and W=W])
    show "write_free (code k a)" if "\<not> W" using free[OF that] by simp
    show "R s (assign j e p s)" if W for j e p s using assign[OF that] .
  qed (fact refl trans on once off remove heap em)+
next
  case (OnceWrapper n e l)
  let ?w = "OnceWrapper n e l"
  from OnceWrapper.prems obtain c1 s1 where
    inner: "invoke em code l a (record_call (OnceBody ?w) l a st) = Some (c1, s1)"
    and fin: "r = (case c1 of Normal \<Rightarrow> off e ?w s1 | Thrown v \<Rightarrow> (Thrown v, s1))"
    by (auto split: option.splits completion.splits)
  have "R (record_call (OnceBody ?w) l a st) s1"
    using OnceWrapper.IH[OF inner] by simp
  with rcall[of st ?w l a] have a: "R st s1" by (rule trans)
  have "R s1 (snd r)" using fin off[of s1 e ?w] refl[of s1] by (cases c1) simp_all
  with a show ?case by (rule trans)
qed

lemma deliver_keeps:
  assumes run: "deliver em code s msg ls a st = Some r"
    and free: "\<not> W \<Longrightarrow> (\<forall>k a. write_free (code k a))"
    and refl: "\<And>s. R s s"
    and trans: "\<And>a b c. R a b \<Longrightarrow> R b c \<Longrightarrow> R a c"
    and on: "\<And>e k s. R s (snd (on e (Fn k) s))"
    and once: "\<And>e k s. R s (snd (once e (Fn k) s))"
    and off: "\<And>e l s. R s (snd (off e l s))"
    and remove: "\<And>e s. R s (removeAllListeners e s)"
    and heap: "\<And>h s. R s (s\<lparr>heap := h\<rparr>)"
    and assign: "\<And>j e p s. W \<Longrightarrow> R s (assign j e p s)"
    and rcall: "\<And>t l a s. R s (record_call t l a s)"
    and em: "\<And>e p s r. em e p s = Some r \<Longrightarrow> R s (snd r)"
  shows "R st (snd r)"
  using run
proof (induction ls arbitrary: st)
  case Nil
  then show ?case using refl by auto
next
  case (Cons l ls)
  from Cons.prems obtain c s1 where
    inv: "invoke em code l a (record_call s l a st) = Some (c, s1)"
    by (auto split: option.splits)
  have "R (record_call s l a st) (snd (c, s1))" using inv
  proof (rule invoke_keeps[where R=R and W=W])
    show "\<forall>k a. write_free (code k a)" if "\<not> W" using free[OF that] .
    show "R s (assign j e p s)" if W for j e p s using assign[OF that] .
  qed (fact refl trans on once off remove heap rcall em)+
  with rcall[of st s l a] have r1: "R st s1" by (auto intro: trans)
  show ?case
  proof (cases c)
    case Normal
    with Cons.prems inv have "deliver em code s msg ls a s1 = Some r" by simp
    then have "R s1 (snd r)" by (rule Cons.IH)
    with r1 show ?thesis by (rule trans)
  next
    case (Thrown err)
    with Cons.prems inv obtain c2 s2 where
      re: "em ''error'' (caught msg err) s1 = Some (c2, s2)" and
      rest: "r = (c2, s2) \<or> deliver em code s msg ls a s2 = Some r"
      by (auto split: option.splits completion.splits)
    from em[OF re] have r2: "R s1 s2" by simp
    from rest have "R s2 (snd r)"
    proof
      assume "r = (c2, s2)"
      then show ?thesis using refl by simp
    next
      assume "deliver em code s msg ls a s2 = Some r"
      then show ?thesis by (rule Cons.IH)
    qed
    with trans[OF r1 r2] show ?thesis by (rule trans)
  qed
qed


section \<open>The record of calls\<close>

lemma above_mono: "k' \<le> k \<Longrightarrow> above k s \<Longrightarrow> above k' s"
  by (cases s) auto

lemma grows_refl: "grows k st st"
  by (simp add: grows_def)

lemma grows_trans: "grows k a b \<Longrightarrow> grows k b c \<Longrightarrow> grows k a c"
  by (fastforce simp: grows_def)

lemma grows_mono: "k' \<le> k \<Longrightarrow> grows k a b \<Longrightarrow> grows k' a b"
  by (auto simp: grows_def intro: above_mono)

lemma grows_same: "emissions b = emissions a \<Longrightarrow> calls b = calls a \<Longrightarrow> grows k a b"
  by (simp add: grows_def)

lemma grows_le: "grows k a b \<Longrightarrow> emissions a \<le> emissions b"
  by (simp add: grows_def)

lemma soundD: "sound em \<Longrightarrow> em e p st = Some r \<Longrightarrow> grows (emissions st) st (snd r)"
  unfolding sound_def by blast

lemma error_safeD: "error_safe em \<Longrightarrow> em ''error'' p st = Some r \<Longrightarrow> fst r = Normal"
  unfolding error_safe_def by blast

lemma invoke_grows:
  assumes em: "sound em" and run: "invoke em code l a st = Some r" and k: "k \<le> emissions st"
  shows "grows k st (snd r)"
proof -
  let ?R = "\<lambda>a b. \<forall>k. k \<le> emissions a \<longrightarrow> grows k a b"
  have "?R st (snd r)" using run
  proof (rule invoke_keeps[where R="?R" and W=True])
    show "?R s s" for s :: "'a emitter" by (simp add: grows_refl)
    show "?R a c" if "?R a b" "?R b c" for a b c :: "'a emitter"
    proof (intro allI impI)
      fix k assume k: "k \<le> emissions a"
      with that(1) have ab: "grows k a b" by simp
      then have "k \<le> emissions b" using k by (simp add: grows_def)
      with that(2) have "grows k b c" by simp
      with ab show "grows k a c" by (rule grows_trans)
    qed
    show "?R s (snd (on e (Fn f) s))" for e f and s :: "'a emitter" by (simp add: grows_same)
    show "?R s (snd (once e (Fn f) s))" for e f and s :: "'a emitter" by (simp add: grows_same)
    show "?R s (snd (off e l s))" for e l and s :: "'a emitter" by (simp add: grows_same)
    show "?R s (removeAllListeners e s)" for e and s :: "'a emitter" by (simp add: grows_same)
    show "?R s (s\<lparr>heap := h\<rparr>)" for h and s :: "'a emitter" by (simp add: grows_same)
    show "?R s (assign j e p s)" for j e p and s :: "'a emitter" by (simp add: grows_same)
    show "?R s (record_call (OnceBody w) l a s)" for w l a and s :: "'a emitter"
      by (simp add: grows_def)
    show "?R s (snd r)" if "em e p s = Some r" for e p r and s :: "'a emitter"
      using soundD[OF em that] by (auto intro: grows_mono)
  qed simp
  with k show ?thesis by simp
qed

lemma deliver_normal:
  assumes "error_safe em"
  shows "deliver em code s msg ls a st = Some r \<Longrightarrow> fst r = Normal"
proof (induction ls arbitrary: st)
  case Nil
  then show ?case by auto
next
  case (Cons l ls)
  from Cons.prems obtain c s1 where
    inv: "invoke em code l a (record_call s l a st) = Some (c, s1)"
    by (auto split: option.splits)
  show ?case
  proof (cases c)
    case Normal
    with Cons.prems inv have "deliver em code s msg ls a s1 = Some r" by simp
    then show ?thesis by (rule Cons.IH)
  next
    case (Thrown err)
    with Cons.prems inv obtain r2 where
      re: "em ''error'' (caught msg err) s1 = Some r2"
      by (auto split: option.splits)
    with assms have "fst r2 = Normal" by (rule error_safeD)
    with re Cons.prems inv Thrown have "deliver em code s msg ls a (snd r2) = Some r"
      by (cases r2) simp
    then show ?thesis by (rule Cons.IH)
  qed
qed

lemma not_above_below: "below s k \<Longrightarrow> \<not> above k s"
  by (auto simp: below_def)

lemma below_mono: "below s k \<Longrightarrow> k \<le> k' \<Longrightarrow> below s k'"
  by (auto simp: below_def)

lemma loop_calls_Nil: "loop_calls s [] a st st"
  by (simp add: loop_calls_def)

lemma loop_calls_Cons:
  assumes s: "below s (emissions st)"
    and g: "grows (emissions st) (record_call s l a st) s1"
    and r: "loop_calls s ls a s1 st'"
  shows "loop_calls s (l # ls) a st st'"
proof -
  let ?k = "emissions st"
  from g obtain n1 where n1: "calls s1 = calls st @ (s, l, a) # n1"
    "\<forall>c \<in> set n1. above ?k (fst c)" and e1: "?k \<le> emissions s1"
    by (auto simp: grows_def)
  from r obtain n2 where n2: "calls st' = calls s1 @ n2"
    "\<forall>c \<in> set n2. fst c = s \<or> above (emissions s1) (fst c)"
    "filter (\<lambda>c. fst c = s) n2 = map (\<lambda>l. (s, l, a)) ls" and e2: "emissions s1 \<le> emissions st'"
    by (auto simp: loop_calls_def)
  have n2': "\<forall>c \<in> set n2. fst c = s \<or> above ?k (fst c)"
    using n2(2) e1 by (auto intro: above_mono)
  have f1: "filter (\<lambda>c. fst c = s) n1 = []"
    using n1(2) not_above_below[OF s] by (auto simp: filter_empty_conv)
  have "calls st' = calls st @ ((s, l, a) # n1 @ n2)" using n1(1) n2(1) by simp
  moreover have "\<forall>c \<in> set ((s, l, a) # n1 @ n2). fst c = s \<or> above ?k (fst c)"
    using n1(2) n2' by auto
  moreover have "filter (\<lambda>c. fst c = s) ((s, l, a) # n1 @ n2) = map (\<lambda>l. (s, l, a)) (l # ls)"
    using f1 n2(3) by simp
  ultimately show ?thesis using e1 e2 unfolding loop_calls_def
    by (intro conjI exI[of _ "(s, l, a) # n1 @ n2"]) auto
qed

lemma deliver_calls:
  assumes em: "sound em" and safe: "error_safe em"
  shows "below s (emissions st) \<Longrightarrow> deliver em code s msg ls a st = Some r \<Longrightarrow>
         loop_calls s ls a st (snd r)"
proof (induction ls arbitrary: st)
  case Nil
  then show ?case by (auto simp: loop_calls_Nil)
next
  case (Cons l ls)
  from Cons.prems(2) obtain c s1 where
    inv: "invoke em code l a (record_call s l a st) = Some (c, s1)"
    by (auto split: option.splits)
  have g1: "grows (emissions st) (record_call s l a st) s1"
    using invoke_grows[OF em inv, of "emissions st"] by simp
  then have le1: "emissions st \<le> emissions s1" by (simp add: grows_def)
  show ?case
  proof (cases c)
    case Normal
    with Cons.prems(2) inv have "deliver em code s msg ls a s1 = Some r" by simp
    moreover have "below s (emissions s1)" using Cons.prems(1) le1 by (rule below_mono)
    ultimately have "loop_calls s ls a s1 (snd r)" using Cons.IH by simp
    with Cons.prems(1) g1 show ?thesis by (rule loop_calls_Cons)
  next
    case (Thrown err)
    with Cons.prems(2) inv obtain r2 where
      re: "em ''error'' (caught msg err) s1 = Some r2"
      by (auto split: option.splits)
    with safe have "fst r2 = Normal" by (rule error_safeD)
    with re Cons.prems(2) inv Thrown have rest: "deliver em code s msg ls a (snd r2) = Some r"
      by (cases r2) simp
    from em re have "grows (emissions s1) s1 (snd r2)" by (rule soundD)
    then have g2: "grows (emissions st) s1 (snd r2)" using le1 by (auto intro: grows_mono)
    then have le2: "emissions s1 \<le> emissions (snd r2)" by (simp add: grows_def)
    have "below s (emissions (snd r2))" using Cons.prems(1) le1 le2 by (auto intro: below_mono)
    then have "loop_calls s ls a (snd r2) (snd r)" using Cons.IH rest by simp
    moreover have "grows (emissions st) (record_call s l a st) (snd r2)"
      using g1 g2 by (rule grows_trans)
    ultimately show ?thesis using Cons.prems(1) by (intro loop_calls_Cons)
  qed
qed

lemma loop_calls_grows:
  "s = CategoryLoop i \<or> s = WildcardLoop i \<Longrightarrow> i < emissions st \<Longrightarrow>
   loop_calls s ls a st st' \<Longrightarrow> grows i st st'"
  by (fastforce simp: loop_calls_def grows_def intro: above_mono[of i "emissions st"])

lemma below_site [simp]:
  "below (CategoryLoop i) k = (i < k)" "below (WildcardLoop i) k = (i < k)"
  by (auto simp: below_def)

lemma not_inherited_error: "\<not> inherited ''error''"
  by (simp add: inherited_def)

lemma property_cases:
  "property e st = Missing \<longleftrightarrow> listeners st e = None \<and> \<not> inherited e"
  "property e st = Inherited \<longleftrightarrow> listeners st e = None \<and> inherited e"
  "property e st = ListenerSet s \<longleftrightarrow> listeners st e = Some s"
  by (auto simp: property_def split: option.splits)

lemma notify_specific_normal:
  assumes "error_safe em" "notify_specific em code i e p st = Some r"
  shows "fst r = Normal \<or> property e st = Inherited"
  using assms deliver_normal[OF assms(1)]
  by (cases "property e st") (auto simp: notify_specific_def)

lemma notify_wildcard_normal:
  assumes "error_safe em" "notify_wildcard em code i e p st = Some r"
  shows "fst r = Normal"
  using assms deliver_normal[OF assms(1)]
  by (auto simp: notify_wildcard_def split: if_splits)

lemma emit_Suc_cases:
  assumes "emit (Suc n) code e p st = Some r"
  obtains (threw) v st1 where
      "notify_specific (emit n code) code (emissions st) e p (st\<lparr>emissions := Suc (emissions st)\<rparr>)
         = Some (Thrown v, st1)" "r = (Thrown v, st1)"
  | (went_on) st1 where
      "notify_specific (emit n code) code (emissions st) e p (st\<lparr>emissions := Suc (emissions st)\<rparr>)
         = Some (Normal, st1)"
      "notify_wildcard (emit n code) code (emissions st) e p st1 = Some r"
  using assms by (auto split: option.splits completion.splits)

lemma emit_error_safe: "error_safe (emit n code)"
proof (induction n)
  case 0
  show ?case by (simp add: error_safe_def)
next
  case (Suc n)
  show ?case unfolding error_safe_def
  proof (intro allI impI)
    fix p r and st :: "'a emitter"
    assume run: "emit (Suc n) code ''error'' p st = Some r"
    then show "fst r = Normal"
    proof (cases rule: emit_Suc_cases)
      case (threw v st1)
      from notify_specific_normal[OF Suc threw(1)] show ?thesis
        by (simp add: property_cases not_inherited_error)
    next
      case (went_on st1)
      from notify_wildcard_normal[OF Suc went_on(2)] show ?thesis .
    qed
  qed
qed

lemma emit_thrown:
  assumes "emit n code e p st = Some (Thrown v, st')"
  shows "inherited e \<and> listeners st e = None \<and> st' = st\<lparr>emissions := Suc (emissions st)\<rparr>"
proof (cases n)
  case 0
  with assms show ?thesis by simp
next
  case (Suc m)
  with assms have "emit (Suc m) code e p st = Some (Thrown v, st')" by simp
  then show ?thesis
  proof (cases rule: emit_Suc_cases)
    case (threw w st1)
    from notify_specific_normal[OF emit_error_safe threw(1)]
    have inh: "property e (st\<lparr>emissions := Suc (emissions st)\<rparr>) = Inherited" by simp
    with threw show ?thesis by (auto simp: property_cases notify_specific_def)
  next
    case (went_on st1)
    from notify_wildcard_normal[OF emit_error_safe went_on(2)] show ?thesis by simp
  qed
qed

lemma notify_specific_calls:
  assumes "sound em" "error_safe em" "i < emissions st"
    "notify_specific em code i e p st = Some (Normal, st')"
  shows "loop_calls (CategoryLoop i) (eventListeners e st) p st st'"
proof (cases "property e st")
  case Missing
  with assms(4) show ?thesis
    by (simp add: notify_specific_def eventListeners_def loop_calls_Nil property_cases)
next
  case Inherited
  with assms(4) show ?thesis by (simp add: notify_specific_def)
next
  case (ListenerSet ls)
  with assms(4) have "deliver em code (CategoryLoop i) ''An error occurred in a listener.'' ls p st
      = Some (Normal, st')"
    by (simp add: notify_specific_def)
  from deliver_calls[OF assms(1,2) _ this] assms(3) ListenerSet show ?thesis
    by (simp add: eventListeners_def property_cases)
qed

lemma loop_calls_same:
  "emissions b = emissions a \<Longrightarrow> calls b = calls a \<Longrightarrow> loop_calls s ls x b c \<Longrightarrow>
   loop_calls s ls x a c"
  by (simp add: loop_calls_def)

lemma built_trace [simp]:
  "emissions (built e p st) = emissions st" "calls (built e p st) = calls st"
  "wildcardListeners (built e p st) = wildcardListeners st" "listeners (built e p st) = listeners st"
  "eventData (built e p st) = eventData st @ [(Str e, p)]"
  by (simp_all add: built_def)

lemma notify_wildcard_deliver:
  "notify_wildcard em code i e p st =
     (if wildcardListeners st = [] then Some (Normal, st)
      else deliver em code (WildcardLoop i) ''An error occurred in a wildcard listener.''
             (wildcardListeners st) (EventData (length (eventData st)) e p) (built e p st))"
  by (simp add: notify_wildcard_def built_def)

lemma notify_wildcard_calls:
  assumes "sound em" "error_safe em" "i < emissions st" "notify_wildcard em code i e p st = Some r"
  shows "loop_calls (WildcardLoop i) (wildcardListeners st) (EventData (length (eventData st)) e p)
           st (snd r)"
proof (cases "wildcardListeners st = []")
  case True
  with assms(4) show ?thesis by (auto simp: notify_wildcard_deliver loop_calls_Nil)
next
  case False
  with assms(4) have "deliver em code (WildcardLoop i) ''An error occurred in a wildcard listener.''
      (wildcardListeners st) (EventData (length (eventData st)) e p) (built e p st) = Some r"
    by (simp add: notify_wildcard_deliver)
  from deliver_calls[OF assms(1,2) _ this] assms(3) show ?thesis
    by (auto intro: loop_calls_same[rotated 2])
qed

lemma emit_sound: "sound (emit n code)"
proof (induction n)
  case 0
  show ?case by (simp add: sound_def)
next
  case (Suc n)
  show ?case unfolding sound_def
  proof (intro allI impI)
    fix e p r and st :: "'a emitter"
    assume run: "emit (Suc n) code e p st = Some r"
    let ?i = "emissions st"
    let ?st0 = "st\<lparr>emissions := Suc ?i\<rparr>"
    have start: "grows ?i st ?st0" by (simp add: grows_def)
    from run show "grows ?i st (snd r)"
    proof (cases rule: emit_Suc_cases)
      case (threw v st1)
      from notify_specific_normal[OF emit_error_safe threw(1)]
      have "property e ?st0 = Inherited" by simp
      with threw have "snd r = ?st0" by (simp add: notify_specific_def)
      with start show ?thesis by simp
    next
      case (went_on st1)
      have l1: "loop_calls (CategoryLoop ?i) (eventListeners e ?st0) p ?st0 st1"
        using notify_specific_calls[OF Suc emit_error_safe _ went_on(1)] by simp
      then have g1: "grows ?i ?st0 st1" by (intro loop_calls_grows[where i="?i"]) auto
      then have i1: "?i < emissions st1" by (simp add: grows_def)
      then have "loop_calls (WildcardLoop ?i) (wildcardListeners st1)
          (EventData (length (eventData st1)) e p) st1 (snd r)"
        using notify_wildcard_calls[OF Suc emit_error_safe _ went_on(2)] by simp
      then have g2: "grows ?i st1 (snd r)" using i1 by (intro loop_calls_grows[where i="?i"]) auto
      have "grows ?i ?st0 (snd r)" using g1 g2 by (rule grows_trans)
      then show ?thesis by (simp add: grows_def)
    qed
  qed
qed

lemma emit_increments:
  assumes "emit n code e p st = Some r"
  shows "emissions st < emissions (snd r)"
proof (cases n)
  case 0
  with assms show ?thesis by simp
next
  case (Suc m)
  let ?st0 = "st\<lparr>emissions := Suc (emissions st)\<rparr>"
  from assms Suc have "emit (Suc m) code e p st = Some r" by simp
  then show ?thesis
  proof (cases rule: emit_Suc_cases)
    case (threw v st1)
    from notify_specific_normal[OF emit_error_safe threw(1)]
    have "property e ?st0 = Inherited" by simp
    with threw show ?thesis by (auto simp: notify_specific_def)
  next
    case (went_on st1)
    have "loop_calls (CategoryLoop (emissions st)) (eventListeners e ?st0) p ?st0 st1"
      using notify_specific_calls[OF emit_sound emit_error_safe _ went_on(1)] by simp
    then have i1: "emissions st < emissions st1" by (simp add: loop_calls_def)
    then have "loop_calls (WildcardLoop (emissions st)) (wildcardListeners st1)
        (EventData (length (eventData st1)) e p) st1 (snd r)"
      using notify_wildcard_calls[OF emit_sound emit_error_safe _ went_on(2)] by simp
    with i1 show ?thesis by (simp add: loop_calls_def)
  qed
qed

lemma after_category_Some:
  "after_category n code e p st = Some st1 \<longleftrightarrow>
     notify_specific (emit n code) code (emissions st) e p (st\<lparr>emissions := Suc (emissions st)\<rparr>)
       = Some (Normal, st1)"
  by (auto simp: after_category_def returned_def split: option.splits completion.splits)

lemma emit_Normal_split:
  assumes "emit (Suc n) code e p st = Some (Normal, st')"
  obtains st1 where
    "after_category n code e p st = Some st1"
    "notify_wildcard (emit n code) code (emissions st) e p st1 = Some (Normal, st')"
  using assms
proof (cases rule: emit_Suc_cases)
  case (threw v st1)
  then show ?thesis by simp
next
  case (went_on st1)
  with that show ?thesis by (simp add: after_category_Some)
qed

lemma emit_calls:
  assumes run: "emit (Suc n) code e p st = Some (Normal, st')"
  shows "\<exists>st1.
    after_category n code e p st = Some st1 \<and>
    notify_wildcard (emit n code) code (emissions st) e p st1 = Some (Normal, st') \<and>
    emissions st < emissions st1 \<and> (\<exists>x. calls st1 = calls st @ x) \<and>
    (\<exists>y. calls st' = calls st1 @ y) \<and>
    calls_of (emissions st) st st' =
       map (\<lambda>l. (CategoryLoop (emissions st), l, p)) (eventListeners e st) @
       map (\<lambda>l. (WildcardLoop (emissions st), l, EventData (length (eventData st1)) e p))
         (wildcardListeners st1)"
proof -
  let ?i = "emissions st"
  let ?st0 = "st\<lparr>emissions := Suc ?i\<rparr>"
  let ?C = "CategoryLoop ?i" and ?W = "WildcardLoop ?i"
  from run obtain st1 where
    a: "after_category n code e p st = Some st1" and
    b: "notify_wildcard (emit n code) code ?i e p st1 = Some (Normal, st')"
    by (rule emit_Normal_split)
  let ?d = "EventData (length (eventData st1)) e p"
  from a have a': "notify_specific (emit n code) code ?i e p ?st0 = Some (Normal, st1)"
    by (simp add: after_category_Some)
  have l1: "loop_calls ?C (eventListeners e ?st0) p ?st0 st1"
    using notify_specific_calls[OF emit_sound emit_error_safe _ a'] by simp
  then have i1: "?i < emissions st1" by (simp add: loop_calls_def)
  then have l2: "loop_calls ?W (wildcardListeners st1) ?d st1 st'"
    using notify_wildcard_calls[OF emit_sound emit_error_safe _ b] by simp
  from l1 obtain n1 where n1: "calls st1 = calls st @ n1"
    "\<forall>c \<in> set n1. fst c = ?C \<or> above (Suc ?i) (fst c)"
    "filter (\<lambda>c. fst c = ?C) n1 = map (\<lambda>l. (?C, l, p)) (eventListeners e st)"
    by (auto simp: loop_calls_def eventListeners_def)
  from l2 obtain n2 where n2: "calls st' = calls st1 @ n2"
    "\<forall>c \<in> set n2. fst c = ?W \<or> above (emissions st1) (fst c)"
    "filter (\<lambda>c. fst c = ?W) n2 = map (\<lambda>l. (?W, l, ?d)) (wildcardListeners st1)"
    by (auto simp: loop_calls_def)
  have n2': "\<forall>c \<in> set n2. fst c = ?W \<or> above (Suc ?i) (fst c)"
    using n2(2) i1 by (auto intro: above_mono[of "Suc ?i" "emissions st1"])
  have f1: "filter (\<lambda>c. fst c = ?C \<or> fst c = ?W) n1 = filter (\<lambda>c. fst c = ?C) n1"
    using n1(2) by (intro filter_cong) auto
  have f2: "filter (\<lambda>c. fst c = ?C \<or> fst c = ?W) n2 = filter (\<lambda>c. fst c = ?W) n2"
    using n2' by (intro filter_cong) auto
  have "drop (length (calls st)) (calls st') = n1 @ n2" using n1(1) n2(1) by simp
  then have "calls_of ?i st st' =
       map (\<lambda>l. (?C, l, p)) (eventListeners e st) @ map (\<lambda>l. (?W, l, ?d)) (wildcardListeners st1)"
    using f1 f2 n1(3) n2(3) by (simp add: calls_of_def)
  with a b i1 n1(1) n2(1) show ?thesis by (intro exI[of _ st1] conjI) auto
qed


section \<open>What an emission keeps\<close>

lemma emit_keeps:
  assumes free: "\<not> W \<Longrightarrow> (\<forall>k a. write_free (code k a))"
    and refl: "\<And>s. R s s"
    and trans: "\<And>a b c. R a b \<Longrightarrow> R b c \<Longrightarrow> R a c"
    and on: "\<And>e k s. R s (snd (on e (Fn k) s))"
    and once: "\<And>e k s. R s (snd (once e (Fn k) s))"
    and off: "\<And>e l s. R s (snd (off e l s))"
    and remove: "\<And>e s. R s (removeAllListeners e s)"
    and heap: "\<And>h s. R s (s\<lparr>heap := h\<rparr>)"
    and assign: "\<And>j e p s. W \<Longrightarrow> R s (assign j e p s)"
    and rcall: "\<And>t l a s. R s (record_call t l a s)"
    and tick: "\<And>s. R s (s\<lparr>emissions := Suc (emissions s)\<rparr>)"
    and alloc: "\<And>e p s. R s (built e p s)"
  shows "emit n code e p st = Some r \<Longrightarrow> R st (snd r)"
proof (induction n arbitrary: e p st r)
  case 0
  then show ?case by simp
next
  case (Suc n)
  let ?st0 = "st\<lparr>emissions := Suc (emissions st)\<rparr>"
  have loop: "R s (snd r)" if "deliver (emit n code) code t msg ls a s = Some r" for t msg ls a s r
    using that
  proof (rule deliver_keeps[where R=R and W=W])
    show "\<forall>k a. write_free (code k a)" if "\<not> W" using free[OF that] .
    show "R s (assign j e p s)" if W for j e p s using assign[OF that] .
    show "R s (snd r)" if "emit n code e p s = Some r" for e p s r using that by (rule Suc.IH)
  qed (fact refl trans on once off remove heap rcall)+
  have first: "R ?st0 (snd r1)"
    if "notify_specific (emit n code) code (emissions st) e p ?st0 = Some r1" for r1
    using that refl[of ?st0] loop
    by (cases "property e ?st0") (auto simp: notify_specific_def)
  have second: "R s (snd r)"
    if "notify_wildcard (emit n code) code (emissions st) e p s = Some r" for s
  proof (cases "wildcardListeners s = []")
    case True
    with that refl[of s] show ?thesis by (auto simp: notify_wildcard_deliver)
  next
    case False
    with that have "R (built e p s) (snd r)" by (auto simp: notify_wildcard_deliver intro: loop)
    with alloc[of s e p] show ?thesis by (rule trans)
  qed
  from Suc.prems show ?case
  proof (cases rule: emit_Suc_cases)
    case (threw v st1)
    from first[OF threw(1)] threw(2) have "R ?st0 (snd r)" by simp
    with tick[of st] show ?thesis by (rule trans)
  next
    case (went_on st1)
    from first[OF went_on(1)] have "R ?st0 st1" by simp
    with tick[of st] have "R st st1" by (rule trans)
    then show ?thesis using second[OF went_on(2)] by (rule trans)
  qed
qed

section \<open>The listener sets hold no listener twice\<close>

lemma getListenerCount_registered:
  "\<not> inherited e \<Longrightarrow> getListenerCount e st = length (registered e st)"
  by (auto simp: getListenerCount_def registered_def eventListeners_def property_def
      split: option.splits)

lemma distinct_set_add: "distinct s \<Longrightarrow> distinct (set_add s l)"
  by (simp add: set_add_def)

lemma distinct_set_delete: "distinct s \<Longrightarrow> distinct (set_delete s l)"
  by (simp add: set_delete_def distinct_removeAll)

lemma sets_ok_on: "sets_ok st \<Longrightarrow> sets_ok (snd (on e l st))"
  by (auto simp: sets_ok_def on_def property_def distinct_set_add set_add_def
      split: option.splits if_splits)

lemma sets_ok_off: "sets_ok st \<Longrightarrow> sets_ok (snd (off e l st))"
  by (auto simp: sets_ok_def off_def property_def distinct_set_delete split: option.splits if_splits)

lemma sets_ok_other [simp]:
  "sets_ok (st\<lparr>heap := h\<rparr>) = sets_ok st"
  "sets_ok (st\<lparr>emissions := i\<rparr>) = sets_ok st"
  "sets_ok (st\<lparr>closures := c\<rparr>) = sets_ok st"
  "sets_ok (record_call s l a st) = sets_ok st"
  "sets_ok (assign j e p st) = sets_ok st"
  "sets_ok (built C p st) = sets_ok st"
  by (simp_all add: sets_ok_def record_call_def assign_def built_def)

lemma sets_ok_once: "sets_ok st \<Longrightarrow> sets_ok (snd (once e l st))"
  using sets_ok_on[of "st\<lparr>closures := Suc (closures st)\<rparr>"] by (simp add: once_def)

lemma sets_ok_removeAllListeners: "sets_ok st \<Longrightarrow> sets_ok (removeAllListeners e st)"
  by (auto simp: sets_ok_def removeAllListeners_def split: option.splits if_splits)

lemma sets_ok_new: "sets_ok (new_emitter h)"
  by (simp add: sets_ok_def new_emitter_def)

lemma emit_sets_ok:
  assumes "emit n code e p st = Some r" "sets_ok st"
  shows "sets_ok (snd r)"
proof -
  have "sets_ok st \<longrightarrow> sets_ok (snd r)"
    by (rule emit_keeps[where W=True and R="\<lambda>a b. sets_ok a \<longrightarrow> sets_ok b", OF _ _ _ _ _ _ _ _ _ _ _ _ assms(1)])
       (simp_all add: sets_ok_on sets_ok_off sets_ok_once sets_ok_removeAllListeners)
  with assms(2) show ?thesis by simp
qed

lemma emit_keeps_sets: "keeps_sets (emit n code)"
  unfolding keeps_sets_def using emit_sets_ok by blast

lemma after_category_sets_ok:
  assumes "after_category n code e p st = Some st1" "sets_ok st"
  shows "sets_ok st1"
proof -
  let ?st0 = "st\<lparr>emissions := Suc (emissions st)\<rparr>"
  from assms(1) have run: "notify_specific (emit n code) code (emissions st) e p ?st0 = Some (Normal, st1)"
    by (simp add: after_category_Some)
  show ?thesis
  proof (cases "property e ?st0")
    case (ListenerSet ls)
    with run have d: "deliver (emit n code) code (CategoryLoop (emissions st))
        ''An error occurred in a listener.'' ls p ?st0 = Some (Normal, st1)"
      by (simp add: notify_specific_def)
    have "sets_ok ?st0 \<longrightarrow> sets_ok (snd (Normal, st1))"
      using d
    proof (rule deliver_keeps[where W=True and R="\<lambda>a b. sets_ok a \<longrightarrow> sets_ok b"])
      show "sets_ok s \<longrightarrow> sets_ok (snd r)" if "emit n code e p s = Some r" for e p s r
        using emit_sets_ok[OF that] by simp
    qed (simp_all add: sets_ok_on sets_ok_off sets_ok_once sets_ok_removeAllListeners)
    with assms(2) show ?thesis by simp
  qed (use run assms(2) in \<open>auto simp: notify_specific_def\<close>)
qed

section \<open>The fields of an event data object\<close>

text \<open>
  An object that has been built stays, and listeners that assign to no field leave its
  fields as they are.
\<close>

lemma emit_keeps_objects:
  assumes "emit n code e p st = Some r"
  shows "length (eventData st) \<le> length (eventData (snd r))"
  by (rule emit_keeps[where W=True and R="\<lambda>a b. length (eventData a) \<le> length (eventData b)",
        OF _ _ _ _ _ _ _ _ _ _ _ _ assms])
     (simp_all add: on_def off_def once_def removeAllListeners_def assign_def record_call_def
        split: found.splits option.splits)







section \<open>When emit returns\<close>

lemma off_normal: "\<not> inherited e \<Longrightarrow> fst (off e l st) = Normal"
  by (simp add: off_def property_def split: option.splits)

lemma on_normal: "\<not> inherited e \<Longrightarrow> fst (on e l st) = Normal"
  by (simp add: on_def property_def split: option.splits)

lemma not_inherited_wildcard: "\<not> inherited ''*''"
  by (simp add: inherited_def)

lemma sane_state_on:
  assumes "sane_state st" "sane l \<or> (e \<noteq> ''*'' \<and> property e st = Inherited)"
  shows "sane_state (snd (on e l st))"
  using assms
  by (auto simp: sane_state_def on_def property_def set_add_def split: option.splits if_splits)

lemma sane_state_once:
  assumes "sane_state st" "sane l"
  shows "sane_state (snd (once e l st))"
proof -
  let ?s = "st\<lparr>closures := Suc (closures st)\<rparr>"
  have s: "sane_state ?s" using assms(1) by (simp add: sane_state_def)
  have "sane (OnceWrapper (closures st) e l) \<or> (e \<noteq> ''*'' \<and> property e ?s = Inherited)"
    using assms not_inherited_wildcard
    by (cases "listeners st e") (auto simp: property_def sane_state_def)
  from sane_state_on[OF s this] show ?thesis by (simp add: once_def)
qed

lemma sane_state_off: "sane_state st \<Longrightarrow> sane_state (snd (off e l st))"
  by (auto simp: sane_state_def off_def property_def set_delete_def split: option.splits if_splits)

lemma sane_state_removeAllListeners: "sane_state st \<Longrightarrow> sane_state (removeAllListeners e st)"
  by (auto simp: sane_state_def removeAllListeners_def split: option.splits if_splits)

lemma sane_state_other [simp]:
  "sane_state (st\<lparr>heap := h\<rparr>) = sane_state st"
  "sane_state (st\<lparr>emissions := i\<rparr>) = sane_state st"
  "sane_state (record_call s l a st) = sane_state st"
  "sane_state (assign j v p st) = sane_state st"
  "sane_state (built C p st) = sane_state st"
  by (simp_all add: sane_state_def record_call_def assign_def built_def)

lemma sane_state_new: "sane_state (new_emitter h)"
  by (simp add: sane_state_def new_emitter_def)

lemmas sane_steps = sane_state_on sane_state_once sane_state_off sane_state_removeAllListeners

lemma emit_sane:
  assumes "emit n code e p st = Some r" "sane_state st"
  shows "sane_state (snd r)"
proof -
  have "sane_state st \<longrightarrow> sane_state (snd r)"
    by (rule emit_keeps[where W=True and R="\<lambda>a b. sane_state a \<longrightarrow> sane_state b",
          OF _ _ _ _ _ _ _ _ _ _ _ _ assms(1)])
       (simp_all add: sane_steps)
  with assms(2) show ?thesis by simp
qed

lemma invoke_sane:
  assumes run: "invoke em code l a st = Some r" and st: "sane_state st"
    and keeps: "\<And>e p s r. em e p s = Some r \<Longrightarrow> sane_state s \<Longrightarrow> sane_state (snd r)"
  shows "sane_state (snd r)"
proof -
  have "sane_state st \<longrightarrow> sane_state (snd r)" using run
  proof (rule invoke_keeps[where W=True and R="\<lambda>a b. sane_state a \<longrightarrow> sane_state b"])
    show "sane_state s \<longrightarrow> sane_state (snd r)" if "em e p s = Some r" for e p s r
      using keeps[OF that] by simp
  qed (simp_all add: sane_steps)
  with st show ?thesis by simp
qed

lemma deliver_sane:
  assumes run: "deliver em code s msg ls a st = Some r" and st: "sane_state st"
    and keeps: "\<And>e p s r. em e p s = Some r \<Longrightarrow> sane_state s \<Longrightarrow> sane_state (snd r)"
  shows "sane_state (snd r)"
proof -
  have "sane_state st \<longrightarrow> sane_state (snd r)" using run
  proof (rule deliver_keeps[where W=True and R="\<lambda>a b. sane_state a \<longrightarrow> sane_state b"])
    show "sane_state s \<longrightarrow> sane_state (snd r)" if "em e p s = Some r" for e p s r
      using keeps[OF that] by simp
  qed (simp_all add: sane_steps)
  with st show ?thesis by simp
qed

lemma exec_emit_free: "emit_free b \<Longrightarrow> \<exists>r. exec em b st = Some r"
  by (induction b arbitrary: st) (auto simp del: split_paired_All split_paired_Ex)

lemma exec_quiet: "emit_free b \<Longrightarrow> throw_free b \<Longrightarrow> \<exists>st'. exec em b st = Some (Normal, st')"
  by (induction b arbitrary: st) (auto simp del: split_paired_All split_paired_Ex)

lemma invoke_emit_free:
  "\<forall>k. emit_free (code k a) \<Longrightarrow> \<exists>r. invoke em code l a st = Some r"
proof (induction l arbitrary: st)
  case (Fn j)
  then show ?case using exec_emit_free[of "code j a" em st] by simp
next
  case (OnceWrapper n e l)
  from OnceWrapper.IH[OF OnceWrapper.prems, of "record_call (OnceBody (OnceWrapper n e l)) l a st"]
  obtain c s1 where "invoke em code l a (record_call (OnceBody (OnceWrapper n e l)) l a st) = Some (c, s1)"
    by auto
  then show ?case by (cases c) simp_all
qed

lemma invoke_quiet:
  "sane l \<Longrightarrow> \<forall>k. emit_free (code k a) \<and> throw_free (code k a) \<Longrightarrow>
   \<exists>st'. invoke em code l a st = Some (Normal, st')"
proof (induction l arbitrary: st)
  case (Fn j)
  then show ?case by (simp add: exec_quiet)
next
  case (OnceWrapper n e l)
  let ?w = "OnceWrapper n e l"
  from OnceWrapper.prems(1) have e: "\<not> inherited e" and l: "sane l" by simp_all
  from OnceWrapper.IH[OF l OnceWrapper.prems(2), of "record_call (OnceBody ?w) l a st"]
  obtain s1 where inner: "invoke em code l a (record_call (OnceBody ?w) l a st) = Some (Normal, s1)"
    by auto
  have "off e ?w s1 = (Normal, snd (off e ?w s1))"
    using off_normal[OF e, of ?w s1] by (cases "off e ?w s1") simp
  then obtain s2 where "off e ?w s1 = (Normal, s2)" by (rule that)
  with inner show ?case by simp
qed

lemma deliver_quiet:
  assumes "\<forall>k. emit_free (code k a) \<and> throw_free (code k a)"
  shows "\<forall>l \<in> set ls. sane l \<Longrightarrow> \<exists>st'. deliver em code s msg ls a st = Some (Normal, st')"
proof (induction ls arbitrary: st)
  case Nil
  show ?case by simp
next
  case (Cons l ls)
  then have "sane l" by simp
  from invoke_quiet[where code=code and a=a, OF this assms] obtain s1 where
    "invoke em code l a (record_call s l a st) = Some (Normal, s1)" by blast
  with Cons.IH[of s1] Cons.prems show ?case by simp
qed

lemma deliver_returns:
  assumes free: "\<forall>k. emit_free (code k a)"
    and em: "\<And>v st. sane_state st \<Longrightarrow> \<exists>st'. em ''error'' (caught msg v) st = Some (Normal, st')"
    and keeps: "\<And>e p s r. em e p s = Some r \<Longrightarrow> sane_state s \<Longrightarrow> sane_state (snd r)"
  shows "sane_state st \<Longrightarrow> \<exists>st'. deliver em code s msg ls a st = Some (Normal, st')"
proof (induction ls arbitrary: st)
  case Nil
  show ?case by simp
next
  case (Cons l ls)
  from invoke_emit_free[where code=code and a=a, OF free] obtain c s1 where
    inv: "invoke em code l a (record_call s l a st) = Some (c, s1)" by fastforce
  have s1: "sane_state s1" using invoke_sane[OF inv _ keeps] Cons.prems by simp
  show ?case
  proof (cases c)
    case Normal
    with inv Cons.IH[OF s1] show ?thesis by simp
  next
    case (Thrown err)
    from em[OF s1] obtain s2 where re: "em ''error'' (caught msg err) s1 = Some (Normal, s2)"
      by blast
    from keeps[OF re s1] have "sane_state s2" by simp
    with inv Thrown re Cons.IH[of s2] show ?thesis by simp
  qed
qed

lemma caught_is_error: "instanceofError (caught msg v)"
  by (simp add: caught_def)

lemma sane_state_sets:
  "sane_state st \<Longrightarrow> \<forall>l \<in> set (wildcardListeners st). sane l"
  "sane_state st \<Longrightarrow> listeners st e = Some s \<Longrightarrow> \<forall>l \<in> set s. sane l"
  by (auto simp: sane_state_def)

lemma emit_error_returns:
  assumes wb: "well_behaved code" and st: "sane_state st" and v: "instanceofError v"
  shows "\<exists>st'. emit (Suc n) code ''error'' v st = Some (Normal, st')"
proof -
  let ?st0 = "st\<lparr>emissions := Suc (emissions st)\<rparr>"
  have q1: "\<forall>k. emit_free (code k v) \<and> throw_free (code k v)"
    and q2: "\<And>j. \<forall>k. emit_free (code k (EventData j ''error'' v)) \<and>
                 throw_free (code k (EventData j ''error'' v))"
    using wb v by (auto simp: well_behaved_def)
  have keeps: "\<And>e p s r. emit n code e p s = Some r \<Longrightarrow> sane_state s \<Longrightarrow> sane_state (snd r)"
    by (rule emit_sane)
  have st0: "sane_state ?st0" using st by simp
  obtain st1 where a: "notify_specific (emit n code) code (emissions st) ''error'' v ?st0
      = Some (Normal, st1)"
  proof (cases "property ''error'' ?st0")
    case Missing
    with that show ?thesis by (simp add: notify_specific_def)
  next
    case Inherited
    then show ?thesis by (simp add: property_cases not_inherited_error)
  next
    case (ListenerSet ls)
    then have "\<forall>l \<in> set ls. sane l" using sane_state_sets(2)[OF st0] by (simp add: property_cases)
    from deliver_quiet[where code=code and a=v, OF q1 this] ListenerSet that show ?thesis
      by (fastforce simp: notify_specific_def)
  qed
  have st1: "sane_state st1"
  proof (cases "property ''error'' ?st0")
    case (ListenerSet ls)
    with a have "deliver (emit n code) code (CategoryLoop (emissions st))
        ''An error occurred in a listener.'' ls v ?st0 = Some (Normal, st1)"
      by (simp add: notify_specific_def)
    from deliver_sane[OF this st0 keeps] show ?thesis by simp
  qed (use a st0 in \<open>auto simp: notify_specific_def\<close>)
  obtain st2 where "notify_wildcard (emit n code) code (emissions st) ''error'' v st1
      = Some (Normal, st2)"
    using deliver_quiet[where code=code and a="EventData (length (eventData st1)) ''error'' v",
        OF q2 sane_state_sets(1)[OF st1]]
    by (fastforce simp: notify_wildcard_deliver)
  with a show ?thesis by simp
qed

lemma deliver_emit_returns:
  assumes wb: "well_behaved code" and st: "sane_state st"
  shows "\<exists>st'. deliver (emit (Suc n) code) code s msg ls a st = Some (Normal, st')"
proof (rule deliver_returns[where em="emit (Suc n) code"])
  show "\<forall>k. emit_free (code k a)" using wb by (simp add: well_behaved_def)
  show "\<exists>st'. emit (Suc n) code ''error'' (caught msg v) st = Some (Normal, st')"
    if "sane_state st" for v and st :: "'a emitter"
    using wb that caught_is_error by (rule emit_error_returns)
  show "sane_state (snd r)" if "emit (Suc n) code e p s = Some r" "sane_state s"
    for e p r and s :: "'a emitter"
    using that by (rule emit_sane)
  show "sane_state st" by (rule st)
qed

lemma emit_returns:
  assumes wb: "well_behaved code" and st: "sane_state st" and e: "\<not> inherited e"
  shows "\<exists>st'. emit (Suc (Suc n)) code e p st = Some (Normal, st')"
proof -
  let ?st0 = "st\<lparr>emissions := Suc (emissions st)\<rparr>"
  let ?em = "emit (Suc n) code"
  have keeps: "\<And>e p s r. ?em e p s = Some r \<Longrightarrow> sane_state s \<Longrightarrow> sane_state (snd r)"
    by (rule emit_sane)
  have st0: "sane_state ?st0" using st by simp
  obtain st1 where a: "notify_specific ?em code (emissions st) e p ?st0 = Some (Normal, st1)"
  proof (cases "property e ?st0")
    case Missing
    with that show ?thesis by (simp add: notify_specific_def)
  next
    case Inherited
    with e show ?thesis by (simp add: property_cases)
  next
    case (ListenerSet ls)
    from deliver_emit_returns[OF wb st0, of n "CategoryLoop (emissions st)"
        "''An error occurred in a listener.''" ls p]
      ListenerSet that show ?thesis
      by (auto simp: notify_specific_def)
  qed
  have st1: "sane_state st1"
  proof (cases "property e ?st0")
    case (ListenerSet ls)
    with a have "deliver ?em code (CategoryLoop (emissions st))
        ''An error occurred in a listener.'' ls p ?st0 = Some (Normal, st1)"
      by (simp add: notify_specific_def)
    from deliver_sane[OF this st0 keeps] show ?thesis by simp
  qed (use a st0 in \<open>auto simp: notify_specific_def\<close>)
  have "sane_state (built e p st1)" using st1 by simp
  from deliver_emit_returns[OF wb this, of n "WildcardLoop (emissions st)"
      "''An error occurred in a wildcard listener.''" "wildcardListeners st1"
      "EventData (length (eventData st1)) e p"]
  obtain x where "deliver ?em code (WildcardLoop (emissions st))
      ''An error occurred in a wildcard listener.'' (wildcardListeners st1)
      (EventData (length (eventData st1)) e p) (built e p st1) = Some (Normal, x)" ..
  then have "\<exists>st2. notify_wildcard ?em code (emissions st) e p st1 = Some (Normal, st2)"
    by (simp add: notify_wildcard_deliver del: emit.simps)
  then obtain st2 where "notify_wildcard ?em code (emissions st) e p st1 = Some (Normal, st2)" ..
  with a show ?thesis by simp
qed

section \<open>More room for nested calls changes no result\<close>

text \<open>
  The bound on the nesting of \<^verbatim>\<open>emit\<close> only decides whether a run is seen to its end:
  a result found within some bound is the result within every larger one.
\<close>

lemma refinesD: "refines em em' \<Longrightarrow> em e p st = Some r \<Longrightarrow> em' e p st = Some r"
  unfolding refines_def by blast

lemma exec_refines:
  assumes "refines em em'"
  shows "exec em b st = Some r \<Longrightarrow> exec em' b st = Some r"
proof (induction b arbitrary: st)
  case (CallEmit e p k)
  from CallEmit.prems obtain r1 where r1: "em e p st = Some r1"
    and rest: "exec em (k (fst r1)) (snd r1) = Some r"
    by (auto split: option.splits)
  from refinesD[OF assms r1] CallEmit.IH[OF _ rest] show ?case by simp
qed auto

lemma invoke_refines:
  assumes "refines em em'"
  shows "invoke em code l a st = Some r \<Longrightarrow> invoke em' code l a st = Some r"
proof (induction l arbitrary: st r)
  case (Fn k)
  then show ?case using exec_refines[OF assms] by simp
next
  case (OnceWrapper n e l)
  then show ?case by (auto split: option.splits completion.splits prod.splits)
qed

lemma deliver_refines:
  assumes "refines em em'"
  shows "deliver em code s msg ls a st = Some r \<Longrightarrow> deliver em' code s msg ls a st = Some r"
proof (induction ls arbitrary: st)
  case Nil
  then show ?case by simp
next
  case (Cons l ls)
  from Cons.prems obtain c s1 where
    inv: "invoke em code l a (record_call s l a st) = Some (c, s1)"
    by (auto split: option.splits)
  then have inv': "invoke em' code l a (record_call s l a st) = Some (c, s1)"
    by (rule invoke_refines[OF assms])
  show ?case
  proof (cases c)
    case Normal
    with Cons.prems inv have "deliver em code s msg ls a s1 = Some r" by simp
    then have "deliver em' code s msg ls a s1 = Some r" by (rule Cons.IH)
    with inv' Normal show ?thesis by simp
  next
    case (Thrown err)
    with Cons.prems inv obtain c2 s2 where
      re: "em ''error'' (caught msg err) s1 = Some (c2, s2)"
      by (auto split: option.splits)
    from refinesD[OF assms re] have re': "em' ''error'' (caught msg err) s1 = Some (c2, s2)" .
    show ?thesis
    proof (cases c2)
      case Normal
      with Cons.prems inv Thrown re have "deliver em code s msg ls a s2 = Some r" by simp
      then have "deliver em' code s msg ls a s2 = Some r" by (rule Cons.IH)
      with inv' Thrown re' Normal show ?thesis by simp
    next
      case (Thrown v)
      with Cons.prems inv \<open>c = Thrown err\<close> re re' inv' show ?thesis by auto
    qed
  qed
qed

lemma emit_refines_Suc: "refines (emit n code) (emit (Suc n) code)"
proof (induction n)
  case 0
  show ?case by (simp add: refines_def)
next
  case (Suc n)
  have first: "notify_specific (emit (Suc n) code) code i e p s = Some r"
    if "notify_specific (emit n code) code i e p s = Some r" for i e p s r
  proof (cases "property e s")
    case (ListenerSet ls)
    with that have "deliver (emit n code) code (CategoryLoop i)
        ''An error occurred in a listener.'' ls p s = Some r"
      by (simp add: notify_specific_def)
    then have "deliver (emit (Suc n) code) code (CategoryLoop i)
        ''An error occurred in a listener.'' ls p s = Some r"
      by (rule deliver_refines[OF Suc])
    with ListenerSet show ?thesis by (simp add: notify_specific_def del: emit.simps)
  qed (use that in \<open>simp_all add: notify_specific_def\<close>)
  have second: "notify_wildcard (emit (Suc n) code) code i e p s = Some r"
    if "notify_wildcard (emit n code) code i e p s = Some r" for i e p s r
  proof (cases "wildcardListeners s = []")
    case False
    with that have "deliver (emit n code) code (WildcardLoop i)
        ''An error occurred in a wildcard listener.'' (wildcardListeners s)
        (EventData (length (eventData s)) e p) (built e p s) = Some r"
      by (simp add: notify_wildcard_deliver)
    then have "deliver (emit (Suc n) code) code (WildcardLoop i)
        ''An error occurred in a wildcard listener.'' (wildcardListeners s)
        (EventData (length (eventData s)) e p) (built e p s) = Some r"
      by (rule deliver_refines[OF Suc])
    with False show ?thesis by (simp add: notify_wildcard_deliver del: emit.simps)
  qed (use that in \<open>simp_all add: notify_wildcard_deliver\<close>)
  show ?case unfolding refines_def
  proof (intro allI impI)
    fix e p r and st :: "'a emitter"
    assume run: "emit (Suc n) code e p st = Some r"
    then show "emit (Suc (Suc n)) code e p st = Some r"
    proof (cases rule: emit_Suc_cases)
      case (threw v st1)
      from first[OF threw(1)] threw(2) show ?thesis
        by (simp add: emit.simps(2)[of "Suc n"] del: emit.simps)
    next
      case (went_on st1)
      from first[OF went_on(1)] second[OF went_on(2)] show ?thesis
        by (simp add: emit.simps(2)[of "Suc n"] del: emit.simps)
    qed
  qed
qed

lemma emit_more_room:
  "emit n code e p st = Some r \<Longrightarrow> n \<le> m \<Longrightarrow> emit m code e p st = Some r"
proof (induction m)
  case 0
  then show ?case by simp
next
  case (Suc m)
  show ?case
  proof (cases "n = Suc m")
    case True
    with Suc.prems show ?thesis by simp
  next
    case False
    with Suc.prems have "emit m code e p st = Some r" using Suc.IH by simp
    then show ?thesis by (rule refinesD[OF emit_refines_Suc])
  qed
qed

lemmas run_defs = on_def off_def once_def new_emitter_def set_add_def set_delete_def
  notify_specific_def notify_wildcard_def bodies_of_def record_call_def caught_def
  property_def inherited_def or_rethrow_def returned_def

section \<open>Registering and removing listeners\<close>

text \<open>
  Claim C10. \<^verbatim>\<open>removeAllListeners("")\<close> does what \<^verbatim>\<open>removeAllListeners()\<close> does: the empty
  string fails the test \<^verbatim>\<open>if (eventName)\<close>, so every event's listeners and the wildcard
  listeners are removed, and \<^verbatim>\<open>getListenerCount\<close> is 0 for every event name and for
  \<^verbatim>\<open>'*'\<close>.
\<close>

theorem removeAllListeners_empty_string:
  "removeAllListeners (Some '''') st = removeAllListeners None st \<and>
   getListenerCount e (removeAllListeners (Some '''') st) = 0"
  by (simp add: removeAllListeners_def truthy_def getListenerCount_def property_def)

lemma on_twice_same: "on C L (snd (on C L st)) = on C L st"
  by (auto simp: on_def property_def set_add_def split: option.splits)

lemma registered_on:
  "\<not> inherited C \<Longrightarrow> registered C (snd (on C L st)) = set_add (registered C st) L"
  by (auto simp: registered_def eventListeners_def on_def property_def split: option.splits)

lemma registered_off:
  "registered C (snd (off C L st)) = set_delete (registered C st) L"
  by (auto simp: registered_def eventListeners_def off_def property_def set_delete_def
      split: option.splits)

lemma off_absent:
  "\<not> inherited C \<Longrightarrow> L \<notin> set (registered C st) \<Longrightarrow> off C L st = (Normal, st)"
  by (auto simp: registered_def eventListeners_def off_def property_def set_delete_def fun_upd_idem
      split: option.splits)

lemma calls_from_of:
  "s = CategoryLoop i \<or> s = WildcardLoop i \<Longrightarrow>
   calls_from s st st' = map snd (filter (\<lambda>c. fst c = s) (calls_of i st st'))"
  by (auto simp: calls_from_def calls_of_def intro!: arg_cong[where f="map snd"] filter_cong)

lemma emit_category_calls:
  assumes "emit (Suc n) code e p st = Some (Normal, st')"
  shows "calls_from (CategoryLoop (emissions st)) st st' = map (\<lambda>l. (l, p)) (eventListeners e st)"
  using emit_calls[OF assms]
  by (auto simp add: calls_from_of[of _ "emissions st"] comp_def)

lemma emit_both:
  assumes "emit (Suc n) code e p st = Some (Normal, st')"
  shows "\<exists>ws d.
    wildcard_snapshot n code e p st = Some ws \<and> wildcardEventData n code e p st = Some d \<and>
    calls_of (emissions st) st st' =
       map (\<lambda>l. (CategoryLoop (emissions st), l, p)) (eventListeners e st) @
       map (\<lambda>l. (WildcardLoop (emissions st), l, d)) ws"
proof -
  from emit_calls[OF assms] obtain st1 where
    a: "after_category n code e p st = Some st1" and
    c: "calls_of (emissions st) st st' =
       map (\<lambda>l. (CategoryLoop (emissions st), l, p)) (eventListeners e st) @
       map (\<lambda>l. (WildcardLoop (emissions st), l, EventData (length (eventData st1)) e p))
         (wildcardListeners st1)"
    by (elim exE conjE)
  from a have "wildcard_snapshot n code e p st = Some (wildcardListeners st1)"
    and "wildcardEventData n code e p st = Some (EventData (length (eventData st1)) e p)"
    by (simp_all add: wildcard_snapshot_def wildcardEventData_def)
  with c show ?thesis by (intro exI conjI)
qed

lemma set_add_only: "set xs \<subseteq> {L} \<Longrightarrow> distinct xs \<Longrightarrow> set_add xs L = [L]"
  by (cases xs; cases "tl xs") (auto simp: set_add_def)

lemma registered_category: "C \<noteq> ''*'' \<Longrightarrow> eventListeners C st = registered C st"
  by (simp add: registered_def)

text \<open>
  Claim C7, as amended. For an event name \<open>C\<close> that is not inherited, \<^verbatim>\<open>on(C, L)\<close>
  returns, and calling it twice in a row leaves the emitter as one call does. When no
  listener other than \<open>L\<close> is registered for \<open>C\<close>, \<^verbatim>\<open>getListenerCount(C)\<close> is 1
  afterwards, and the two loops of an \<^verbatim>\<open>emit(C, payload)\<close> that returns make these calls
  and no other: \<open>L\<close> once with the payload, as the listener of \<open>C\<close>, and then the wildcard
  listeners of the copy with the event data. So the loops call \<open>L\<close> exactly once unless
  \<open>L\<close> is a wildcard listener as well.
\<close>

theorem on_idempotent:
  "\<not> inherited C \<longrightarrow>
     fst (on C L st) = Normal \<and>
     on C L (snd (on C L st)) = on C L st \<and>
     (set (registered C st) \<subseteq> {L} \<and> distinct (registered C st) \<longrightarrow>
        getListenerCount C (snd (on C L (snd (on C L st)))) = 1 \<and>
        (\<forall>n code p st'. C \<noteq> ''*'' \<and>
            emit (Suc n) code C p (snd (on C L (snd (on C L st)))) = Some (Normal, st') \<longrightarrow>
            (\<exists>ws d.
               wildcard_snapshot n code C p (snd (on C L (snd (on C L st)))) = Some ws \<and>
               wildcardEventData n code C p (snd (on C L (snd (on C L st)))) = Some d \<and>
               calls_of (emissions st) (snd (on C L (snd (on C L st)))) st' =
                 (CategoryLoop (emissions st), L, p) #
                 map (\<lambda>w. (WildcardLoop (emissions st), w, d)) ws \<and>
               (L \<notin> set ws \<longrightarrow>
                  filter (\<lambda>c. fst (snd c) = L)
                    (calls_of (emissions st) (snd (on C L (snd (on C L st)))) st') =
                  [(CategoryLoop (emissions st), L, p)]))))"
proof (intro conjI impI allI)
  assume C: "\<not> inherited C"
  then show "fst (on C L st) = Normal" by (rule on_normal)
  show same: "on C L (snd (on C L st)) = on C L st" by (rule on_twice_same)
  assume only: "set (registered C st) \<subseteq> {L} \<and> distinct (registered C st)"
  then have reg: "registered C (snd (on C L st)) = [L]"
    using C by (simp add: registered_on set_add_only)
  then show "getListenerCount C (snd (on C L (snd (on C L st)))) = 1"
    using C by (simp add: same getListenerCount_registered)
  fix n code p st'
  let ?st2 = "snd (on C L (snd (on C L st)))"
  assume run: "C \<noteq> ''*'' \<and> emit (Suc n) code C p ?st2 = Some (Normal, st')"
  then have ev: "eventListeners C ?st2 = [L]" using reg by (simp add: same registered_category)
  have i: "emissions ?st2 = emissions st" by simp
  from run emit_both[of n code C p ?st2 st'] obtain ws d where
    ws: "wildcard_snapshot n code C p ?st2 = Some ws" and
    d: "wildcardEventData n code C p ?st2 = Some d" and
    co: "calls_of (emissions st) ?st2 st' =
           (CategoryLoop (emissions st), L, p) # map (\<lambda>w. (WildcardLoop (emissions st), w, d)) ws"
    unfolding ev i by auto
  have once: "L \<notin> set ws \<longrightarrow>
      filter (\<lambda>c. fst (snd c) = L) (calls_of (emissions st) ?st2 st') =
      [(CategoryLoop (emissions st), L, p)]"
    unfolding co by (auto simp: filter_empty_conv)
  from ws d co once show "\<exists>ws d.
      wildcard_snapshot n code C p ?st2 = Some ws \<and>
      wildcardEventData n code C p ?st2 = Some d \<and>
      calls_of (emissions st) ?st2 st' =
        (CategoryLoop (emissions st), L, p) # map (\<lambda>w. (WildcardLoop (emissions st), w, d)) ws \<and>
      (L \<notin> set ws \<longrightarrow>
         filter (\<lambda>c. fst (snd c) = L) (calls_of (emissions st) ?st2 st') =
         [(CategoryLoop (emissions st), L, p)])"
    by (intro exI[of _ ws] exI[of _ d] conjI)
qed

theorem on_idempotent_witness:
  "fst (on ''ping'' (Fn 0) (snd (on ''*'' (Fn 3) (new_emitter ())))) = Normal \<and>
   getListenerCount ''ping''
     (snd (on ''ping'' (Fn 0) (snd (on ''ping'' (Fn 0) (snd (on ''*'' (Fn 3) (new_emitter ()))))))) = 1 \<and>
   (\<exists>st'. emit (Suc 0) (bodies_of []) ''ping'' Undefined
            (snd (on ''ping'' (Fn 0) (snd (on ''ping'' (Fn 0) (snd (on ''*'' (Fn 3) (new_emitter ())))))))
            = Some (Normal, st') \<and>
          calls_of 0
            (snd (on ''ping'' (Fn 0) (snd (on ''ping'' (Fn 0) (snd (on ''*'' (Fn 3) (new_emitter ())))))))
            st' =
            [(CategoryLoop 0, Fn 0, Undefined),
             (WildcardLoop 0, Fn 3, EventData 0 ''ping'' Undefined)] \<and>
          filter (\<lambda>c. fst (snd c) = Fn 0) (calls_of 0
            (snd (on ''ping'' (Fn 0) (snd (on ''ping'' (Fn 0) (snd (on ''*'' (Fn 3) (new_emitter ())))))))
            st') = [(CategoryLoop 0, Fn 0, Undefined)])"
proof -
  let ?S0 = "snd (on ''*'' (Fn 3) (new_emitter ())) :: unit emitter"
  let ?S2 = "snd (on ''ping'' (Fn 0) (snd (on ''ping'' (Fn 0) ?S0)))"
  have ni: "\<not> inherited ''ping''" by (simp add: inherited_def)
  have pre: "set (registered ''ping'' ?S0) \<subseteq> {Fn 0} \<and> distinct (registered ''ping'' ?S0)"
    by (simp add: registered_def eventListeners_def run_defs)
  obtain st' where run: "emit (Suc 0) (bodies_of []) ''ping'' Undefined ?S2 = Some (Normal, st')"
    by (simp add: run_defs)
  have i: "emissions ?S0 = 0" by (simp add: new_emitter_def)
  have ne: "''ping'' \<noteq> ''*''" by simp
  have snap: "wildcard_snapshot 0 (bodies_of []) ''ping'' Undefined ?S2 = Some [Fn 3]"
    and obj: "wildcardEventData 0 (bodies_of []) ''ping'' Undefined ?S2
                = Some (EventData 0 ''ping'' Undefined)"
    by (simp_all add: wildcard_snapshot_def wildcardEventData_def after_category_def run_defs)
  note main = on_idempotent[of "''ping''" "Fn 0" ?S0, THEN mp, OF ni]
  from main have ret: "fst (on ''ping'' (Fn 0) ?S0) = Normal" by (rule conjunct1)
  note rest = main[THEN conjunct2, THEN conjunct2, THEN mp, OF pre]
  from rest have count: "getListenerCount ''ping'' ?S2 = 1" by (rule conjunct1)
  note em = rest[THEN conjunct2, THEN spec, THEN spec, THEN spec, THEN spec, THEN mp,
      OF conjI[OF ne run]]
  from em obtain ws d where
    ws: "wildcard_snapshot 0 (bodies_of []) ''ping'' Undefined ?S2 = Some ws" and
    d: "wildcardEventData 0 (bodies_of []) ''ping'' Undefined ?S2 = Some d" and
    co: "calls_of (emissions ?S0) ?S2 st' =
           (CategoryLoop (emissions ?S0), Fn 0, Undefined) #
           map (\<lambda>w. (WildcardLoop (emissions ?S0), w, d)) ws" and
    once: "Fn 0 \<notin> set ws \<longrightarrow>
           filter (\<lambda>c. fst (snd c) = Fn 0) (calls_of (emissions ?S0) ?S2 st') =
           [(CategoryLoop (emissions ?S0), Fn 0, Undefined)]"
    by (elim exE conjE)
  from ws snap have ws': "ws = [Fn 3]" by simp
  from d obj have d': "d = EventData 0 ''ping'' Undefined" by simp
  from co have co': "calls_of 0 ?S2 st' =
      [(CategoryLoop 0, Fn 0, Undefined), (WildcardLoop 0, Fn 3, EventData 0 ''ping'' Undefined)]"
    unfolding i ws' d' by simp
  from once have once': "filter (\<lambda>c. fst (snd c) = Fn 0) (calls_of 0 ?S2 st') =
      [(CategoryLoop 0, Fn 0, Undefined)]"
    unfolding i ws' by simp
  from run co' once' have "\<exists>st'. emit (Suc 0) (bodies_of []) ''ping'' Undefined ?S2 = Some (Normal, st') \<and>
      calls_of 0 ?S2 st' =
        [(CategoryLoop 0, Fn 0, Undefined), (WildcardLoop 0, Fn 3, EventData 0 ''ping'' Undefined)] \<and>
      filter (\<lambda>c. fst (snd c) = Fn 0) (calls_of 0 ?S2 st') = [(CategoryLoop 0, Fn 0, Undefined)]"
    by (intro exI[of _ st'] conjI)
  with ret count show ?thesis by (intro conjI)
qed

text \<open>
  Claim C7, as stated, fails. A listener that is registered for \<^verbatim>\<open>'x'\<close> and as a wildcard
  listener is the only listener of \<^verbatim>\<open>'x'\<close>, and one \<^verbatim>\<open>emit('x', 1)\<close> calls it twice. For
  the inherited name \<^verbatim>\<open>'constructor'\<close> the call of \<^verbatim>\<open>on\<close> throws, and the count is 0 after
  two calls.
\<close>

theorem wildcard_listener_called_twice:
  "getListenerCount ''x''
     (snd (on ''x'' (Fn 0) (snd (on ''x'' (Fn 0) (snd (on ''*'' (Fn 0) (new_emitter ()))))))) = 1 \<and>
   map_option calls
     (returned (emit (Suc 0) (bodies_of []) ''x'' (Num 1)
        (snd (on ''x'' (Fn 0) (snd (on ''x'' (Fn 0) (snd (on ''*'' (Fn 0) (new_emitter ()))))))))) =
     Some [(CategoryLoop 0, Fn 0, Num 1), (WildcardLoop 0, Fn 0, EventData 0 ''x'' (Num 1))] \<and>
   on ''constructor'' (Fn 0) (new_emitter ()) =
     (Thrown (TypeError ''this.listeners[eventName].add is not a function''), new_emitter ()) \<and>
   getListenerCount ''constructor''
     (snd (on ''constructor'' (Fn 0) (snd (on ''constructor'' (Fn 0) (new_emitter ()))))) = 0"
  by (simp add: getListenerCount_def run_defs)

text \<open>
  Claim C8, as amended. For an event name \<open>C\<close> that is not inherited, \<^verbatim>\<open>off(C, L)\<close>
  returns. For a listener \<open>L\<close> registered for \<open>C\<close> it lowers \<^verbatim>\<open>getListenerCount(C)\<close> by
  exactly one. After \<^verbatim>\<open>off(C, L)\<close> the listener is not registered for \<open>C\<close>, and an
  \<^verbatim>\<open>emit(C, ...)\<close> that is called while \<open>L\<close> is not registered for \<open>C\<close> and returns does
  not call \<open>L\<close> from its loop over the listeners of \<open>C\<close>; it calls \<open>L\<close> from neither loop
  unless \<open>L\<close> is a wildcard listener when the first loop has ended. For a listener that
  is not registered for \<open>C\<close> (also when \<open>C\<close> has no set at all), \<^verbatim>\<open>off(C, L)\<close> returns
  and leaves the emitter as it is. The listener sets of an emitter hold no listener
  twice (\<open>sets_ok\<close>), which is what \<open>distinct\<close> asks here.
\<close>

theorem off_removes:
  "\<not> inherited C \<longrightarrow>
     fst (off C L (st :: 'h emitter)) = Normal \<and>
     (L \<in> set (registered C st) \<and> distinct (registered C st) \<longrightarrow>
        Suc (getListenerCount C (snd (off C L st))) = getListenerCount C st) \<and>
     L \<notin> set (registered C (snd (off C L st))) \<and>
     (\<forall>n code p (st2 :: 'h emitter) st'.
        C \<noteq> ''*'' \<and> L \<notin> set (registered C st2) \<and>
        emit (Suc n) code C p st2 = Some (Normal, st') \<longrightarrow>
        (\<exists>ws. wildcard_snapshot n code C p st2 = Some ws \<and>
              L \<notin> fst ` set (calls_from (CategoryLoop (emissions st2)) st2 st') \<and>
              (L \<notin> set ws \<longrightarrow> L \<notin> (fst \<circ> snd) ` set (calls_of (emissions st2) st2 st')))) \<and>
     (L \<notin> set (registered C st) \<longrightarrow> off C L st = (Normal, st))"
proof (intro conjI impI allI)
  assume C: "\<not> inherited C"
  then show "fst (off C L st) = Normal" by (rule off_normal)
  show "L \<notin> set (registered C (snd (off C L st)))"
    by (simp add: registered_off set_delete_def)
  {
    assume "L \<notin> set (registered C st)"
    with C show "off C L st = (Normal, st)" by (rule off_absent)
  }
  {
    assume reg: "L \<in> set (registered C st) \<and> distinct (registered C st)"
    then have "length (removeAll L (registered C st)) = length (registered C st) - 1"
      by (simp add: distinct_remove1_removeAll[symmetric] length_remove1)
    moreover have "length (registered C st) > 0" using reg by (cases "registered C st") auto
    ultimately show "Suc (getListenerCount C (snd (off C L st))) = getListenerCount C st"
      using C by (simp add: getListenerCount_registered registered_off set_delete_def)
  }
  fix n code p st' and st2 :: "'h emitter"
  assume a: "C \<noteq> ''*'' \<and> L \<notin> set (registered C st2) \<and>
    emit (Suc n) code C p st2 = Some (Normal, st')"
  then have run: "emit (Suc n) code C p st2 = Some (Normal, st')"
    and absent: "L \<notin> set (eventListeners C st2)"
    by (simp_all add: registered_category)
  from emit_both[OF run] obtain ws d where
    ws: "wildcard_snapshot n code C p st2 = Some ws" and
    co: "calls_of (emissions st2) st2 st' =
           map (\<lambda>l. (CategoryLoop (emissions st2), l, p)) (eventListeners C st2) @
           map (\<lambda>l. (WildcardLoop (emissions st2), l, d)) ws"
    by (elim exE conjE)
  have cat: "L \<notin> fst ` set (calls_from (CategoryLoop (emissions st2)) st2 st')"
    using emit_category_calls[OF run] absent by auto
  have both: "L \<notin> set ws \<longrightarrow> L \<notin> (fst \<circ> snd) ` set (calls_of (emissions st2) st2 st')"
    unfolding co using absent by auto
  from ws cat both show "\<exists>ws. wildcard_snapshot n code C p st2 = Some ws \<and>
      L \<notin> fst ` set (calls_from (CategoryLoop (emissions st2)) st2 st') \<and>
      (L \<notin> set ws \<longrightarrow> L \<notin> (fst \<circ> snd) ` set (calls_of (emissions st2) st2 st'))"
    by (intro exI[of _ ws] conjI)
qed

theorem off_removes_witness:
  "fst (off ''a'' (Fn 0) (snd (on ''a'' (Fn 2) (snd (on ''a'' (Fn 0) (new_emitter ())))))) = Normal \<and>
   Suc (getListenerCount ''a''
          (snd (off ''a'' (Fn 0) (snd (on ''a'' (Fn 2) (snd (on ''a'' (Fn 0) (new_emitter ()))))))))
     = getListenerCount ''a'' (snd (on ''a'' (Fn 2) (snd (on ''a'' (Fn 0) (new_emitter ()))))) \<and>
   getListenerCount ''a'' (snd (on ''a'' (Fn 2) (snd (on ''a'' (Fn 0) (new_emitter ()))))) = 2 \<and>
   (\<exists>st'. emit (Suc 0) (bodies_of []) ''a'' (Num 1)
            (snd (off ''a'' (Fn 0) (snd (on ''a'' (Fn 2) (snd (on ''a'' (Fn 0) (new_emitter ())))))))
            = Some (Normal, st') \<and>
          Fn 0 \<notin> (fst \<circ> snd) ` set (calls_of 0
            (snd (off ''a'' (Fn 0) (snd (on ''a'' (Fn 2) (snd (on ''a'' (Fn 0) (new_emitter ())))))))
            st')) \<and>
   off ''b'' (Fn 0) (snd (on ''a'' (Fn 2) (snd (on ''a'' (Fn 0) (new_emitter ())))))
     = (Normal, snd (on ''a'' (Fn 2) (snd (on ''a'' (Fn 0) (new_emitter ())))))"
proof -
  let ?st = "snd (on ''a'' (Fn 2) (snd (on ''a'' (Fn 0) (new_emitter ())))) :: unit emitter"
  let ?st2 = "snd (off ''a'' (Fn 0) ?st)"
  have na: "\<not> inherited ''a''" and nb: "\<not> inherited ''b''" by (simp_all add: inherited_def)
  have ra: "registered ''a'' ?st = [Fn 0, Fn 2]" and rb: "registered ''b'' ?st = []"
    by (simp_all add: registered_def eventListeners_def run_defs)
  have i: "emissions ?st2 = 0" by (simp add: new_emitter_def)
  obtain st' where run: "emit (Suc 0) (bodies_of []) ''a'' (Num 1) ?st2 = Some (Normal, st')"
    by (simp add: run_defs)
  have snap: "wildcard_snapshot 0 (bodies_of []) ''a'' (Num 1) ?st2 = Some []"
    by (simp add: wildcard_snapshot_def after_category_def run_defs)
  have two: "getListenerCount ''a'' ?st = 2"
    using na by (simp add: getListenerCount_registered ra)
  have ne: "''a'' \<noteq> ''*''" by simp
  have pre: "Fn 0 \<in> set (registered ''a'' ?st) \<and> distinct (registered ''a'' ?st)"
    and absent: "Fn 0 \<notin> set (registered ''b'' ?st)"
    by (simp_all add: ra rb)
  note main = off_removes[of "''a''" "Fn 0" ?st, THEN mp, OF na]
  from main have ret: "fst (off ''a'' (Fn 0) ?st) = Normal" by (rule conjunct1)
  from main[THEN conjunct2, THEN conjunct1, THEN mp, OF pre]
  have c: "Suc (getListenerCount ''a'' ?st2) = getListenerCount ''a'' ?st" .
  from main[THEN conjunct2, THEN conjunct2, THEN conjunct1]
  have gone: "Fn 0 \<notin> set (registered ''a'' ?st2)" .
  note e = main[THEN conjunct2, THEN conjunct2, THEN conjunct2, THEN conjunct1,
      THEN spec, THEN spec, THEN spec, THEN spec, THEN spec, THEN mp,
      OF conjI[OF ne conjI[OF gone run]]]
  from e obtain ws where
    ws: "wildcard_snapshot 0 (bodies_of []) ''a'' (Num 1) ?st2 = Some ws" and
    both: "Fn 0 \<notin> set ws \<longrightarrow> Fn 0 \<notin> (fst \<circ> snd) ` set (calls_of (emissions ?st2) ?st2 st')"
    by (elim exE conjE)
  from ws snap have "Fn 0 \<notin> set ws" by simp
  with both have "Fn 0 \<notin> (fst \<circ> snd) ` set (calls_of (emissions ?st2) ?st2 st')" by (rule mp)
  then have not_called: "Fn 0 \<notin> (fst \<circ> snd) ` set (calls_of 0 ?st2 st')"
    unfolding i .
  from off_removes[of "''b''" "Fn 0" ?st, THEN mp, OF nb, THEN conjunct2, THEN conjunct2,
      THEN conjunct2, THEN conjunct2, THEN mp, OF absent]
  have same: "off ''b'' (Fn 0) ?st = (Normal, ?st)" .
  from run not_called have "\<exists>st'. emit (Suc 0) (bodies_of []) ''a'' (Num 1) ?st2 = Some (Normal, st') \<and>
      Fn 0 \<notin> (fst \<circ> snd) ` set (calls_of 0 ?st2 st')"
    by (intro exI[of _ st'] conjI)
  with ret c two same show ?thesis by (intro conjI)
qed

text \<open>
  Claim C8, as stated, fails. \<^verbatim>\<open>once('x', f)\<close> registers a closure of its own, which
  \<^verbatim>\<open>off('x', f)\<close> does not remove: after \<^verbatim>\<open>on('x', f); once('x', f); off('x', f)\<close> the
  next \<^verbatim>\<open>emit('x', 1)\<close> calls \<open>f\<close> through the closure. For the inherited name
  \<^verbatim>\<open>'hasOwnProperty'\<close>, which has no set, \<^verbatim>\<open>off\<close> throws.
\<close>

theorem off_leaves_once_wrapper:
  "registered ''x''
     (snd (off ''x'' (Fn 0) (snd (once ''x'' (Fn 0) (snd (on ''x'' (Fn 0) (new_emitter ())))))))
     = [OnceWrapper 0 ''x'' (Fn 0)] \<and>
   map_option calls
     (returned (emit (Suc 0) (bodies_of []) ''x'' (Num 1)
        (snd (off ''x'' (Fn 0) (snd (once ''x'' (Fn 0) (snd (on ''x'' (Fn 0) (new_emitter ()))))))))) =
     Some [(CategoryLoop 0, OnceWrapper 0 ''x'' (Fn 0), Num 1),
           (OnceBody (OnceWrapper 0 ''x'' (Fn 0)), Fn 0, Num 1)] \<and>
   registered ''hasOwnProperty'' (new_emitter ()) = [] \<and>
   off ''hasOwnProperty'' (Fn 0) (new_emitter ()) =
     (Thrown (TypeError ''eventListeners.delete is not a function''), new_emitter ())"
  by (simp add: registered_def eventListeners_def run_defs)

section \<open>What an emission calls\<close>

lemma well_behaved_touchy: "well_behaved touchy"
  by (auto simp: well_behaved_def touchy_def split: val.splits)

lemma registered_on_new:
  "\<not> inherited C \<Longrightarrow> L \<notin> set (registered C st) \<Longrightarrow>
   registered C (snd (on C L st)) = registered C st @ [L]"
  by (simp add: registered_on set_add_def)

lemma after_category_none:
  assumes "eventListeners e st = []" "after_category n code e p st = Some st1"
  shows "st1 = st\<lparr>emissions := Suc (emissions st)\<rparr>"
  using assms
  by (cases "listeners st e")
     (auto simp: after_category_Some notify_specific_def property_def eventListeners_def
        split: if_splits)

text \<open>
  Claim C6, as amended. An \<^verbatim>\<open>emit(C, payload)\<close> that returns has called the listeners of
  \<open>C\<close> in the order of their registration (\<^verbatim>\<open>on\<close> puts a new listener last), each with
  the payload, and all of them before the first wildcard listener; then it has called,
  once each and with the event data, the wildcard listeners that are registered when the
  first loop has ended, however many listeners \<open>C\<close> has. With no listener for \<open>C\<close> these
  are the wildcard listeners registered when \<^verbatim>\<open>emit\<close> was called. With well-behaved
  listeners and an event name that is not inherited \<^verbatim>\<open>emit\<close> does return, and two nested
  calls suffice.
\<close>

theorem emit_order:
  "(well_behaved code \<and> sane_state st \<and> \<not> inherited C \<longrightarrow>
      (\<exists>st'. emit (Suc (Suc n)) code C p st = Some (Normal, st'))) \<and>
   (L \<notin> set (registered C st) \<and> \<not> inherited C \<longrightarrow>
      registered C (snd (on C L st)) = registered C st @ [L]) \<and>
   (\<forall>m st'. sets_ok st \<and> emit (Suc m) code C p st = Some (Normal, st') \<longrightarrow>
      (\<exists>ws d.
         wildcard_snapshot m code C p st = Some ws \<and>
         wildcardEventData m code C p st = Some d \<and>
         calls_of (emissions st) st st' =
           map (\<lambda>l. (CategoryLoop (emissions st), l, p)) (eventListeners C st) @
           map (\<lambda>l. (WildcardLoop (emissions st), l, d)) ws \<and>
         distinct (eventListeners C st) \<and> distinct ws \<and>
         (eventListeners C st = [] \<longrightarrow> ws = wildcardListeners st)))"
proof (intro conjI impI allI)
  assume "well_behaved code \<and> sane_state st \<and> \<not> inherited C"
  then show "\<exists>st'. emit (Suc (Suc n)) code C p st = Some (Normal, st')"
    by (intro emit_returns) simp_all
next
  assume "L \<notin> set (registered C st) \<and> \<not> inherited C"
  then show "registered C (snd (on C L st)) = registered C st @ [L]"
    by (intro registered_on_new) simp_all
next
  fix m st'
  assume a: "sets_ok st \<and> emit (Suc m) code C p st = Some (Normal, st')"
  then have run: "emit (Suc m) code C p st = Some (Normal, st')" and ok: "sets_ok st"
    by simp_all
  from emit_calls[OF run] obtain st1 where
    ns: "after_category m code C p st = Some st1" and
    co: "calls_of (emissions st) st st' =
           map (\<lambda>l. (CategoryLoop (emissions st), l, p)) (eventListeners C st) @
           map (\<lambda>l. (WildcardLoop (emissions st), l, EventData (length (eventData st1)) C p))
             (wildcardListeners st1)"
    by (elim exE conjE)
  have snap: "wildcard_snapshot m code C p st = Some (wildcardListeners st1)"
    and obj: "wildcardEventData m code C p st = Some (EventData (length (eventData st1)) C p)"
    using ns by (simp_all add: wildcard_snapshot_def wildcardEventData_def)
  have ok1: "sets_ok st1" using after_category_sets_ok[OF ns ok] .
  have d1: "distinct (eventListeners C st)"
    using ok by (auto simp: sets_ok_def eventListeners_def split: option.splits)
  have d2: "distinct (wildcardListeners st1)" using ok1 by (simp add: sets_ok_def)
  have none: "eventListeners C st = [] \<longrightarrow> wildcardListeners st1 = wildcardListeners st"
  proof
    assume "eventListeners C st = []"
    from after_category_none[OF this ns] show "wildcardListeners st1 = wildcardListeners st"
      by simp
  qed
  from snap obj co d1 d2 none
  show "\<exists>ws d.
         wildcard_snapshot m code C p st = Some ws \<and>
         wildcardEventData m code C p st = Some d \<and>
         calls_of (emissions st) st st' =
           map (\<lambda>l. (CategoryLoop (emissions st), l, p)) (eventListeners C st) @
           map (\<lambda>l. (WildcardLoop (emissions st), l, d)) ws \<and>
         distinct (eventListeners C st) \<and> distinct ws \<and>
         (eventListeners C st = [] \<longrightarrow> ws = wildcardListeners st)"
    by (intro exI[of _ "wildcardListeners st1"] exI[of _ "EventData (length (eventData st1)) C p"]
        conjI)
qed

lemma ping_snapshot:
  "wildcard_snapshot (Suc 0) touchy ''ping'' (Num 5) ping_emitter = Some [Fn 3]"
  "wildcardEventData (Suc 0) touchy ''ping'' (Num 5) ping_emitter
     = Some (EventData 2 ''ping'' (Num 5))"
  by (simp_all add: wildcard_snapshot_def wildcardEventData_def after_category_def
      ping_emitter_def touchy_def run_defs)

lemma ping_ok: "sets_ok ping_emitter" "sane_state ping_emitter"
  by (simp_all add: ping_emitter_def sets_ok_on sets_ok_new sane_state_on sane_state_new)

theorem emit_order_witness:
  "well_behaved touchy \<and> sets_ok ping_emitter \<and> sane_state ping_emitter \<and>
   registered ''ping'' (snd (on ''ping'' (Fn 2) (snd (on ''ping'' (Fn 0) (new_emitter ())))))
     = [Fn 0, Fn 2] \<and>
   (\<exists>st'. emit (Suc (Suc 0)) touchy ''ping'' (Num 5) ping_emitter = Some (Normal, st') \<and>
      calls_of 0 ping_emitter st' =
        [(CategoryLoop 0, Fn 0, Num 5), (CategoryLoop 0, Fn 2, Num 5),
         (WildcardLoop 0, Fn 3, EventData 2 ''ping'' (Num 5))]) \<and>
   (\<exists>st'. emit (Suc (Suc 0)) touchy ''pong'' (Num 5) ping_emitter = Some (Normal, st') \<and>
      (\<exists>d. calls_of 0 ping_emitter st' = [(WildcardLoop 0, Fn 3, d)]))"
proof -
  let ?one = "snd (on ''ping'' (Fn 0) (new_emitter ())) :: unit emitter"
  have wb: "well_behaved touchy" by (rule well_behaved_touchy)
  note ok = ping_ok(1) and sane = ping_ok(2)
  have ni: "\<not> inherited ''ping''" "\<not> inherited ''pong''" by (simp_all add: inherited_def)
  have i: "emissions ping_emitter = 0" by (simp add: ping_emitter_def new_emitter_def)
  have ping: "eventListeners ''ping'' ping_emitter = [Fn 0, Fn 2]"
    and pong: "eventListeners ''pong'' ping_emitter = []"
    and wild: "wildcardListeners ping_emitter = [Fn 3]"
    by (simp_all add: ping_emitter_def eventListeners_def run_defs)
  have "Fn 2 \<notin> set (registered ''ping'' ?one)"
    by (simp add: registered_def eventListeners_def run_defs)
  with emit_order[where L="Fn 2" and C="''ping''" and st="?one"] ni(1)
  have "registered ''ping'' (snd (on ''ping'' (Fn 2) ?one)) = registered ''ping'' ?one @ [Fn 2]"
    by blast
  then have order: "registered ''ping'' (snd (on ''ping'' (Fn 2) ?one)) = [Fn 0, Fn 2]"
    by (simp add: registered_def eventListeners_def run_defs)
  note ping_thm = emit_order[where code=touchy and n=0 and C="''ping''" and p="Num 5"
      and st=ping_emitter]
  from ping_thm[THEN conjunct1, THEN mp, OF conjI[OF wb conjI[OF sane ni(1)]]] obtain st' where
    run: "emit (Suc (Suc 0)) touchy ''ping'' (Num 5) ping_emitter = Some (Normal, st')" ..
  note main = ping_thm[THEN conjunct2, THEN conjunct2, THEN spec, THEN spec, THEN mp]
  from main[OF conjI[OF ok run]] obtain ws d where
    s1: "wildcard_snapshot (Suc 0) touchy ''ping'' (Num 5) ping_emitter = Some ws" and
    s2: "wildcardEventData (Suc 0) touchy ''ping'' (Num 5) ping_emitter = Some d" and
    co: "calls_of (emissions ping_emitter) ping_emitter st' =
           map (\<lambda>l. (CategoryLoop (emissions ping_emitter), l, Num 5)) (eventListeners ''ping'' ping_emitter) @
           map (\<lambda>l. (WildcardLoop (emissions ping_emitter), l, d)) ws"
    by (elim exE conjE)
  from s1 s2 ping_snapshot have "ws = [Fn 3]" "d = EventData 2 ''ping'' (Num 5)" by simp_all
  with co have first: "calls_of 0 ping_emitter st' =
        [(CategoryLoop 0, Fn 0, Num 5), (CategoryLoop 0, Fn 2, Num 5),
         (WildcardLoop 0, Fn 3, EventData 2 ''ping'' (Num 5))]"
    by (simp add: i ping)
  note pong_thm = emit_order[where code=touchy and n=0 and C="''pong''" and p="Num 5"
      and st=ping_emitter]
  from pong_thm[THEN conjunct1, THEN mp, OF conjI[OF wb conjI[OF sane ni(2)]]] obtain st'' where
    run2: "emit (Suc (Suc 0)) touchy ''pong'' (Num 5) ping_emitter = Some (Normal, st'')" ..
  note third = pong_thm[THEN conjunct2, THEN conjunct2, THEN spec, THEN spec, THEN mp]
  from third[OF conjI[OF ok run2]] obtain ws2 d2 where
    co2: "calls_of (emissions ping_emitter) ping_emitter st'' =
           map (\<lambda>l. (CategoryLoop (emissions ping_emitter), l, Num 5)) (eventListeners ''pong'' ping_emitter) @
           map (\<lambda>l. (WildcardLoop (emissions ping_emitter), l, d2)) ws2"
    and imp: "eventListeners ''pong'' ping_emitter = [] \<longrightarrow> ws2 = wildcardListeners ping_emitter"
    by (elim exE conjE)
  from imp pong have "ws2 = wildcardListeners ping_emitter" by (rule mp)
  with co2 have second: "calls_of 0 ping_emitter st'' = [(WildcardLoop 0, Fn 3, d2)]"
    by (simp add: i pong wild)
  from run first have f: "\<exists>st'. emit (Suc (Suc 0)) touchy ''ping'' (Num 5) ping_emitter = Some (Normal, st') \<and>
      calls_of 0 ping_emitter st' =
        [(CategoryLoop 0, Fn 0, Num 5), (CategoryLoop 0, Fn 2, Num 5),
         (WildcardLoop 0, Fn 3, EventData 2 ''ping'' (Num 5))]"
    by (intro exI[of _ st'] conjI)
  from run2 second have g: "\<exists>st'. emit (Suc (Suc 0)) touchy ''pong'' (Num 5) ping_emitter = Some (Normal, st') \<and>
      (\<exists>d. calls_of 0 ping_emitter st' = [(WildcardLoop 0, Fn 3, d)])"
    by (intro exI[of _ st''] exI[of _ d2] conjI)
  from wb ok sane order f g show ?thesis by (intro conjI)
qed

text \<open>
  Claim C6, as stated, fails. A wildcard listener that is registered when \<^verbatim>\<open>emit\<close> is
  called is not called at all when a listener of the event removes it, and for the
  inherited name \<^verbatim>\<open>'toString'\<close> \<^verbatim>\<open>emit\<close> throws before it calls any listener.
\<close>

theorem wildcard_listener_left_out:
  "wildcardListeners (snd (on ''*'' (Fn 4) (snd (on ''tick'' (Fn 0) (new_emitter ()))))) = [Fn 4] \<and>
   map_option calls
     (returned (emit (Suc 0) (bodies_of [CallOff ''*'' 4 (\<lambda>c. Return)]) ''tick'' (Num 7)
        (snd (on ''*'' (Fn 4) (snd (on ''tick'' (Fn 0) (new_emitter ()))))))) =
     Some [(CategoryLoop 0, Fn 0, Num 7)] \<and>
   map_option fst
     (emit (Suc 0) (bodies_of []) ''toString'' (Num 7) (snd (on ''*'' (Fn 4) (new_emitter ())))) =
     Some (Thrown (TypeError ''eventListeners is not iterable'')) \<and>
   map_option (calls \<circ> snd)
     (emit (Suc 0) (bodies_of []) ''toString'' (Num 7) (snd (on ''*'' (Fn 4) (new_emitter ())))) =
     Some []"
  by (simp add: run_defs)

lemma emit_wildcard_calls:
  assumes "emit (Suc n) code e p st = Some (Normal, st')"
  shows "\<exists>st1.
    after_category n code e p st = Some st1 \<and>
    calls_from (WildcardLoop (emissions st)) st st' =
      map (\<lambda>l. (l, EventData (length (eventData st1)) e p)) (wildcardListeners st1)"
  using emit_calls[OF assms]
  by (auto simp add: calls_from_of[of _ "emissions st"] comp_def)







text \<open>
  Claim C2, as amended. The listeners of \<open>C\<close> that \<^verbatim>\<open>emit(C, payload)\<close> calls are those
  registered when \<^verbatim>\<open>emit\<close> is called, whatever the listeners do to the registry meanwhile.
  The wildcard listeners it calls are those registered when the loop over the listeners
  of \<open>C\<close> has ended, whatever the wildcard listeners do to the registry meanwhile.
\<close>

theorem emit_snapshots:
  assumes "emit (Suc n) code C p st = Some (Normal, st')"
  shows "map fst (calls_from (CategoryLoop (emissions st)) st st') = eventListeners C st \<and>
         wildcard_snapshot n code C p st =
           Some (map fst (calls_from (WildcardLoop (emissions st)) st st'))"
  using emit_wildcard_calls[OF assms] emit_category_calls[OF assms]
  by (auto simp: wildcard_snapshot_def comp_def)

lemma busy_run:
  "map_option calls (returned (emit (Suc 0) busy ''x'' Undefined busy_emitter)) =
     Some [(CategoryLoop 0, Fn 0, Undefined), (CategoryLoop 0, Fn 2, Undefined),
           (WildcardLoop 0, Fn 3, EventData 0 ''x'' Undefined),
           (WildcardLoop 0, Fn 4, EventData 0 ''x'' Undefined)] \<and>
   map_option (eventListeners ''x'') (returned (emit (Suc 0) busy ''x'' Undefined busy_emitter))
     = Some [Fn 0, Fn 5] \<and>
   map_option wildcardListeners (returned (emit (Suc 0) busy ''x'' Undefined busy_emitter))
     = Some [Fn 3, Fn 6]"
  by (simp add: busy_emitter_def busy_def eventListeners_def run_defs)

lemma returned_Some: "returned r = Some st \<longleftrightarrow> r = Some (Normal, st)"
  by (auto simp: returned_def split: option.splits completion.splits)

theorem emit_snapshots_witness:
  "\<exists>st'. emit (Suc 0) busy ''x'' Undefined busy_emitter = Some (Normal, st') \<and>
     map fst (calls_from (CategoryLoop 0) busy_emitter st') = [Fn 0, Fn 2] \<and>
     map fst (calls_from (WildcardLoop 0) busy_emitter st') = [Fn 3, Fn 4] \<and>
     eventListeners ''x'' st' = [Fn 0, Fn 5] \<and> wildcardListeners st' = [Fn 3, Fn 6]"
proof -
  obtain st' where ret: "returned (emit (Suc 0) busy ''x'' Undefined busy_emitter) = Some st'"
    using busy_run by (cases "returned (emit (Suc 0) busy ''x'' Undefined busy_emitter)") simp_all
  then have run: "emit (Suc 0) busy ''x'' Undefined busy_emitter = Some (Normal, st')"
    by (simp add: returned_Some)
  have i: "emissions busy_emitter = 0" by (simp add: busy_emitter_def new_emitter_def)
  have x: "eventListeners ''x'' busy_emitter = [Fn 0, Fn 2]"
    by (simp add: busy_emitter_def eventListeners_def run_defs)
  have snap: "wildcard_snapshot 0 busy ''x'' Undefined busy_emitter = Some [Fn 3, Fn 4]"
    by (simp add: wildcard_snapshot_def after_category_def busy_emitter_def busy_def run_defs)
  from emit_snapshots[OF run] x snap
  have a: "map fst (calls_from (CategoryLoop 0) busy_emitter st') = [Fn 0, Fn 2]"
    and b: "map fst (calls_from (WildcardLoop 0) busy_emitter st') = [Fn 3, Fn 4]"
    by (simp_all add: i)
  from busy_run ret have c: "eventListeners ''x'' st' = [Fn 0, Fn 5]"
    and d: "wildcardListeners st' = [Fn 3, Fn 6]" by simp_all
  from run a b c d show ?thesis by (intro exI[of _ st'] conjI)
qed

text \<open>
  Claim C2, as stated, fails: the wildcard listeners are copied after the listeners of
  \<open>C\<close> have run. A listener of \<^verbatim>\<open>'x'\<close> that registers a wildcard listener makes it receive
  the same emission, and one that removes a wildcard listener keeps the emission from it.
\<close>

theorem wildcard_snapshot_is_late:
  "wildcardListeners (snd (on ''x'' (Fn 0) (new_emitter ()))) = [] \<and>
   map_option calls
     (returned (emit (Suc 0) (bodies_of [CallOn ''*'' 2 (\<lambda>c. Return)]) ''x'' Undefined
        (snd (on ''x'' (Fn 0) (new_emitter ()))))) =
     Some [(CategoryLoop 0, Fn 0, Undefined), (WildcardLoop 0, Fn 2, EventData 0 ''x'' Undefined)] \<and>
   wildcardListeners (snd (on ''*'' (Fn 2) (snd (on ''x'' (Fn 0) (new_emitter ()))))) = [Fn 2] \<and>
   map_option calls
     (returned (emit (Suc 0) (bodies_of [CallOff ''*'' 2 (\<lambda>c. Return)]) ''x'' Undefined
        (snd (on ''*'' (Fn 2) (snd (on ''x'' (Fn 0) (new_emitter ()))))))) =
     Some [(CategoryLoop 0, Fn 0, Undefined)]"
  by (simp add: run_defs)

section \<open>Faults of listeners\<close>

lemma loop_calls_from:
  "loop_calls s ls a st st' \<Longrightarrow> calls_from s st st' = map (\<lambda>l. (l, a)) ls"
  by (auto simp: loop_calls_def calls_from_def comp_def)

lemma loop_calls_other:
  assumes "loop_calls s ls a st st'" "below t (emissions st)" "t \<noteq> s"
  shows "calls_from t st st' = []"
proof -
  from assms(1) obtain new where n: "calls st' = calls st @ new"
    "\<forall>c \<in> set new. fst c = s \<or> above (emissions st) (fst c)"
    by (auto simp: loop_calls_def)
  have "filter (\<lambda>c. fst c = t) new = []"
    using n(2) assms(3) not_above_below[OF assms(2)] by (auto simp: filter_empty_conv)
  then show ?thesis using n(1) by (simp add: calls_from_def)
qed

lemma loop_calls_none_of:
  assumes "loop_calls s ls a st st'" "below s k" "k < emissions st"
  shows "calls_of k st st' = []"
proof -
  from assms(1) obtain new where n: "calls st' = calls st @ new"
    "\<forall>c \<in> set new. fst c = s \<or> above (emissions st) (fst c)"
    by (auto simp: loop_calls_def)
  have "filter (\<lambda>c. fst c = CategoryLoop k \<or> fst c = WildcardLoop k) new = []"
    using n(2) assms(2,3) by (fastforce simp: filter_empty_conv below_def)
  then show ?thesis using n(1) by (simp add: calls_of_def)
qed

lemma loop_calls_extends: "loop_calls s ls a st st' \<Longrightarrow> \<exists>new. calls st' = calls st @ new"
  by (auto simp: loop_calls_def)

lemma grows_extends: "grows k st st' \<Longrightarrow> \<exists>new. calls st' = calls st @ new"
  by (auto simp: grows_def)

lemma emit_extends: "emit n code e p st = Some r \<Longrightarrow> \<exists>new. calls (snd r) = calls st @ new"
  using soundD[OF emit_sound] by (blast dest: grows_extends)

lemma calls_from_trans:
  assumes "\<exists>x. calls b = calls a @ x" "\<exists>y. calls c = calls b @ y"
  shows "calls_from s a c = calls_from s a b @ calls_from s b c"
  using assms by (auto simp: calls_from_def)

lemma calls_of_trans:
  assumes "\<exists>x. calls b = calls a @ x" "\<exists>y. calls c = calls b @ y"
  shows "calls_of k a c = calls_of k a b @ calls_of k b c"
  using assms by (auto simp: calls_of_def)

lemma deliver_append:
  "deliver em code s msg (xs @ ys) a st =
     (case deliver em code s msg xs a st of
        None \<Rightarrow> None
      | Some (Normal, st1) \<Rightarrow> deliver em code s msg ys a st1
      | Some (Thrown v, st1) \<Rightarrow> Some (Thrown v, st1))"
  by (induction xs arbitrary: st) (auto split: option.splits completion.splits prod.splits)

text \<open>One step of the loop at any position: the listener before which the loop stands throws.\<close>

lemma deliver_throw:
  assumes safe: "error_safe em"
    and run: "deliver em code s msg (pre @ l # post) a st = Some r"
    and before: "deliver em code s msg pre a st = Some (Normal, sta)"
    and throws: "invoke em code l a (record_call s l a sta) = Some (Thrown F, stb)"
  shows "\<exists>stc. em ''error'' (caught msg F) stb = Some (Normal, stc) \<and>
               deliver em code s msg post a stc = Some r"
proof -
  from run before throws obtain r2 where re: "em ''error'' (caught msg F) stb = Some r2"
    by (auto simp: deliver_append split: option.splits)
  from error_safeD[OF safe re] obtain stc where r2: "r2 = (Normal, stc)" by (cases r2) simp
  with run before throws re show ?thesis by (simp add: deliver_append)
qed

lemma deliver_after_throw:
  assumes em: "sound em" and safe: "error_safe em" and site: "below s (emissions st)"
    and run: "deliver em code s msg (pre @ l # post) a st = Some r"
    and before: "deliver em code s msg pre a st = Some (Normal, sta)"
    and throws: "invoke em code l a (record_call s l a sta) = Some (Thrown F, stb)"
  shows "\<exists>stc. em ''error'' (caught msg F) stb = Some (Normal, stc) \<and>
               loop_calls s post a stc (snd r) \<and> fst r = Normal \<and>
               emissions st \<le> emissions stb \<and> emissions stb \<le> emissions stc"
proof -
  from deliver_throw[OF safe run before throws] obtain stc where
    re: "em ''error'' (caught msg F) stb = Some (Normal, stc)" and
    rest: "deliver em code s msg post a stc = Some r" by blast
  have l1: "loop_calls s pre a st sta" using deliver_calls[OF em safe site before] by simp
  then have ia: "emissions st \<le> emissions sta" by (simp add: loop_calls_def)
  have "grows (emissions sta) (record_call s l a sta) stb"
    using invoke_grows[OF em throws, of "emissions sta"] by simp
  then have ib: "emissions sta \<le> emissions stb" by (simp add: grows_def)
  have "grows (emissions stb) stb stc" using soundD[OF em re] by simp
  then have ic: "emissions stb \<le> emissions stc" by (simp add: grows_def)
  have "below s (emissions stc)" using site ia ib ic by (auto intro: below_mono)
  then have l2: "loop_calls s post a stc (snd r)" using deliver_calls[OF em safe _ rest] by simp
  from deliver_normal[OF safe run] have "fst r = Normal" .
  with re l2 ia ib ic show ?thesis by (intro exI[of _ stc] conjI) auto
qed

lemma emit_positive: "emit n code e p st = Some r \<Longrightarrow> \<exists>m. n = Suc m"
  by (cases n) simp_all

lemma emit_reemitted:
  assumes re: "emit n code ''error'' payload stb = Some (Normal, stc)"
    and none: "calls_of (emissions stb) stc st' = []"
    and ext: "\<exists>y. calls st' = calls stc @ y"
  shows "reemitted n code payload stb st'"
proof -
  from re obtain m where n: "n = Suc m" by (auto dest: emit_positive)
  with re have run: "emit (Suc m) code ''error'' payload stb = Some (Normal, stc)" by simp
  from emit_both[OF run] obtain ws d where
    s: "wildcard_snapshot m code ''error'' payload stb = Some ws" and
    o: "wildcardEventData m code ''error'' payload stb = Some d" and
    c: "calls_of (emissions stb) stb stc =
          map (\<lambda>l. (CategoryLoop (emissions stb), l, payload)) (eventListeners ''error'' stb) @
          map (\<lambda>l. (WildcardLoop (emissions stb), l, d)) ws"
    by (elim exE conjE)
  have "\<exists>x. calls stc = calls stb @ x" using emit_extends[OF re] by simp
  from calls_of_trans[OF this ext, of "emissions stb"] none c
  have "calls_of (emissions stb) stb st' =
          map (\<lambda>l. (CategoryLoop (emissions stb), l, payload)) (eventListeners ''error'' stb) @
          map (\<lambda>l. (WildcardLoop (emissions stb), l, d)) ws"
    by simp
  with n run s o show ?thesis unfolding reemitted_def
    by (intro exI[of _ m] exI[of _ stc] exI[of _ ws] exI[of _ d] conjI)
qed

lemma specific_after_throw:
  assumes run: "emit (Suc n) code C p st = Some (c, st')"
    and th: "specific_throws n code C p st pre l post sta F stb"
  shows "c = Normal \<and>
         (\<exists>stc st1.
           emit n code ''error'' (caught ''An error occurred in a listener.'' F) stb
             = Some (Normal, stc) \<and>
           after_category n code C p st = Some st1 \<and>
           calls_from (CategoryLoop (emissions st)) stc st' = map (\<lambda>r. (r, p)) post \<and>
           calls_from (WildcardLoop (emissions st)) stc st' =
             map (\<lambda>w. (w, EventData (length (eventData st1)) C p)) (wildcardListeners st1)) \<and>
         reemitted n code (caught ''An error occurred in a listener.'' F) stb st'"
proof -
  let ?i = "emissions st"
  let ?st0 = "st\<lparr>emissions := Suc ?i\<rparr>"
  let ?C = "CategoryLoop ?i" and ?W = "WildcardLoop ?i"
  let ?msg = "''An error occurred in a listener.''"
  let ?em = "emit n code"
  note em = emit_sound[of n code] and safe = emit_error_safe[of n code]
  from th have snap: "listeners ?st0 C = Some (pre @ l # post)"
    and before: "deliver ?em code ?C ?msg pre p ?st0 = Some (Normal, sta)"
    and throws: "invoke ?em code l p (record_call ?C l p sta) = Some (Thrown F, stb)"
    by (auto simp: specific_throws_def eventListeners_def split: option.splits)
  have first: "notify_specific ?em code ?i C p ?st0 =
      deliver ?em code ?C ?msg (pre @ l # post) p ?st0"
    using snap by (simp add: notify_specific_def property_def)
  from run obtain r1 where loop: "deliver ?em code ?C ?msg (pre @ l # post) p ?st0 = Some r1"
    unfolding first[symmetric] by (cases rule: emit_Suc_cases) auto
  from deliver_after_throw[OF em safe _ loop before throws]
  obtain stc where
    re: "?em ''error'' (caught ?msg F) stb = Some (Normal, stc)" and
    l2: "loop_calls ?C post p stc (snd r1)" and n1: "fst r1 = Normal" and
    ib: "Suc ?i \<le> emissions stb" and ic: "emissions stb \<le> emissions stc"
    by auto
  obtain st1 where r1: "r1 = (Normal, st1)" using n1 by (cases r1) simp
  with loop first have a: "notify_specific ?em code ?i C p ?st0 = Some (Normal, st1)" by simp
  with run have b: "notify_wildcard ?em code ?i C p st1 = Some (c, st')" by simp
  from notify_wildcard_normal[OF safe b] have c: "c = Normal" by simp
  from l2 r1 have l2': "loop_calls ?C post p stc st1" by simp
  then have i1: "emissions stc \<le> emissions st1" by (simp add: loop_calls_def)
  let ?d = "EventData (length (eventData st1)) C p"
  have l3: "loop_calls ?W (wildcardListeners st1) ?d st1 st'"
    using notify_wildcard_calls[OF em safe _ b] ib ic i1 by simp
  have ext: "\<exists>x. calls st1 = calls stc @ x" "\<exists>y. calls st' = calls st1 @ y"
    by (rule loop_calls_extends[OF l2'], rule loop_calls_extends[OF l3])
  have split: "\<And>t. calls_from t stc st' = calls_from t stc st1 @ calls_from t st1 st'"
    by (rule calls_from_trans) (fact ext)+
  have cc: "calls_from ?C stc st' = map (\<lambda>r. (r, p)) post"
    using split[of ?C] loop_calls_from[OF l2'] loop_calls_other[OF l3, of ?C] ib ic i1 by simp
  have w: "calls_from ?W stc st' = map (\<lambda>w. (w, ?d)) (wildcardListeners st1)"
    using split[of ?W] loop_calls_from[OF l3] loop_calls_other[OF l2', of ?W] ib ic by simp
  have k: "emissions stb < emissions stc" using emit_increments[OF re] by simp
  have "calls_of (emissions stb) stc st1 = []"
    using loop_calls_none_of[OF l2', of "emissions stb"] ib k by simp
  moreover have "calls_of (emissions stb) st1 st' = []"
    using loop_calls_none_of[OF l3, of "emissions stb"] ib k i1 by simp
  ultimately have none: "calls_of (emissions stb) stc st' = []"
    using calls_of_trans[OF ext] by simp
  have e3: "\<exists>y. calls st' = calls stc @ y" using ext by auto
  have again: "reemitted n code (caught ?msg F) stb st'" using re none e3 by (rule emit_reemitted)
  from a have "after_category n code C p st = Some st1" by (simp add: after_category_Some)
  with c re cc w again show ?thesis by (intro conjI exI[of _ stc] exI[of _ st1])
qed

lemma wildcard_after_throw:
  assumes run: "emit (Suc n) code C p st = Some (c, st')"
    and th: "wildcard_throws n code C p st pre l post sta F stb"
  shows "c = Normal \<and>
         (\<exists>stc st1.
           emit n code ''error'' (caught ''An error occurred in a wildcard listener.'' F) stb
             = Some (Normal, stc) \<and>
           after_category n code C p st = Some st1 \<and>
           calls_from (WildcardLoop (emissions st)) stc st' =
             map (\<lambda>r. (r, EventData (length (eventData st1)) C p)) post) \<and>
         reemitted n code (caught ''An error occurred in a wildcard listener.'' F) stb st'"
proof -
  let ?i = "emissions st"
  let ?st0 = "st\<lparr>emissions := Suc ?i\<rparr>"
  let ?W = "WildcardLoop ?i"
  let ?msg = "''An error occurred in a wildcard listener.''"
  let ?em = "emit n code"
  note em = emit_sound[of n code] and safe = emit_error_safe[of n code]
  from th obtain st1 where
    a: "after_category n code C p st = Some st1" and
    snap: "wildcardListeners st1 = pre @ l # post" and
    before: "deliver ?em code ?W ?msg pre (EventData (length (eventData st1)) C p) (built C p st1)
               = Some (Normal, sta)" and
    throws: "invoke ?em code l (EventData (length (eventData st1)) C p)
               (record_call ?W l (EventData (length (eventData st1)) C p) sta) = Some (Thrown F, stb)"
    by (auto simp: wildcard_throws_def)
  let ?d = "EventData (length (eventData st1)) C p"
  from a have a': "notify_specific ?em code ?i C p ?st0 = Some (Normal, st1)"
    by (simp add: after_category_Some)
  with run have b: "notify_wildcard ?em code ?i C p st1 = Some (c, st')" by simp
  with snap have loop: "deliver ?em code ?W ?msg (pre @ l # post) ?d (built C p st1) = Some (c, st')"
    by (simp add: notify_wildcard_deliver)
  have i1: "?i < emissions st1"
    using notify_specific_calls[OF em safe _ a'] by (simp add: loop_calls_def)
  then have site: "below ?W (emissions (built C p st1))" by simp
  from deliver_after_throw[OF em safe site loop before throws]
  obtain stc where
    re: "?em ''error'' (caught ?msg F) stb = Some (Normal, stc)" and
    l2: "loop_calls ?W post ?d stc st'" and c: "c = Normal" and
    ib: "emissions st1 \<le> emissions stb"
    by auto
  have k: "emissions stb < emissions stc" using emit_increments[OF re] by simp
  have none: "calls_of (emissions stb) stc st' = []"
    using loop_calls_none_of[OF l2, of "emissions stb"] i1 ib k by simp
  have again: "reemitted n code (caught ?msg F) stb st'"
    using re none loop_calls_extends[OF l2] by (rule emit_reemitted)
  from c re a loop_calls_from[OF l2] again
  show ?thesis by (intro conjI exI[of _ stc] exI[of _ st1])
qed

text \<open>
  Claim C1, as amended. Let a listener throw \<open>F\<close> while one of the two loops of
  \<^verbatim>\<open>emit(C, payload)\<close> runs, and let the call of \<^verbatim>\<open>emit\<close> end. Then it has not thrown: the
  fault does not reach the caller of \<^verbatim>\<open>emit\<close>. The loop has passed the fault to
  \<^verbatim>\<open>emit('error', ...)\<close> and, once that has returned, has called every listener that is
  left in its copy of the set, with the same argument. After a fault in the loop over
  the listeners of \<open>C\<close> the wildcard listeners are called as well: those that are
  registered when that loop has ended.
\<close>

theorem listener_fault_isolated:
  assumes "emit (Suc n) code C p st = Some (c, st')"
  shows "(specific_throws n code C p st pre l post sta F stb \<longrightarrow>
            c = Normal \<and>
            (\<exists>stc ws j.
               emit n code ''error'' (caught ''An error occurred in a listener.'' F) stb
                 = Some (Normal, stc) \<and>
               calls_from (CategoryLoop (emissions st)) stc st' = map (\<lambda>r. (r, p)) post \<and>
               wildcard_snapshot n code C p st = Some ws \<and>
               wildcardEventData n code C p st = Some (EventData j C p) \<and>
               calls_from (WildcardLoop (emissions st)) stc st' =
                 map (\<lambda>w. (w, EventData j C p)) ws)) \<and>
         (wildcard_throws n code C p st pre l post sta F stb \<longrightarrow>
            c = Normal \<and>
            (\<exists>stc j.
               emit n code ''error'' (caught ''An error occurred in a wildcard listener.'' F) stb
                 = Some (Normal, stc) \<and>
               wildcardEventData n code C p st = Some (EventData j C p) \<and>
               calls_from (WildcardLoop (emissions st)) stc st' =
                 map (\<lambda>r. (r, EventData j C p)) post))"
proof (intro conjI impI)
  assume th: "specific_throws n code C p st pre l post sta F stb"
  from specific_after_throw[OF assms th] show "c = Normal" by (rule conjunct1)
  from specific_after_throw[OF assms th, THEN conjunct2, THEN conjunct1] obtain stc st1 where
    "emit n code ''error'' (caught ''An error occurred in a listener.'' F) stb = Some (Normal, stc)"
    "after_category n code C p st = Some st1"
    "calls_from (CategoryLoop (emissions st)) stc st' = map (\<lambda>r. (r, p)) post"
    "calls_from (WildcardLoop (emissions st)) stc st' =
       map (\<lambda>w. (w, EventData (length (eventData st1)) C p)) (wildcardListeners st1)"
    by (elim exE conjE)
  then show "\<exists>stc ws j.
      emit n code ''error'' (caught ''An error occurred in a listener.'' F) stb = Some (Normal, stc) \<and>
      calls_from (CategoryLoop (emissions st)) stc st' = map (\<lambda>r. (r, p)) post \<and>
      wildcard_snapshot n code C p st = Some ws \<and>
      wildcardEventData n code C p st = Some (EventData j C p) \<and>
      calls_from (WildcardLoop (emissions st)) stc st' = map (\<lambda>w. (w, EventData j C p)) ws"
    by (intro exI[of _ stc] exI[of _ "wildcardListeners st1"] exI[of _ "length (eventData st1)"])
       (simp add: wildcard_snapshot_def wildcardEventData_def)
next
  assume th: "wildcard_throws n code C p st pre l post sta F stb"
  from wildcard_after_throw[OF assms th] show "c = Normal" by (rule conjunct1)
  from wildcard_after_throw[OF assms th, THEN conjunct2, THEN conjunct1] obtain stc st1 where
    "emit n code ''error'' (caught ''An error occurred in a wildcard listener.'' F) stb
       = Some (Normal, stc)"
    "after_category n code C p st = Some st1"
    "calls_from (WildcardLoop (emissions st)) stc st' =
       map (\<lambda>r. (r, EventData (length (eventData st1)) C p)) post"
    by (elim exE conjE)
  then show "\<exists>stc j.
      emit n code ''error'' (caught ''An error occurred in a wildcard listener.'' F) stb
        = Some (Normal, stc) \<and>
      wildcardEventData n code C p st = Some (EventData j C p) \<and>
      calls_from (WildcardLoop (emissions st)) stc st' = map (\<lambda>r. (r, EventData j C p)) post"
    by (intro exI[of _ stc] exI[of _ "length (eventData st1)"])
       (simp add: wildcardEventData_def)
qed

lemma ping_touchy:
  "\<exists>st'. emit (Suc (Suc 0)) touchy ''ping'' (Num 5) ping_emitter = Some (Normal, st')"
  by (simp add: ping_emitter_def touchy_def run_defs)

lemma pong_touchy:
  "\<exists>st'. emit (Suc (Suc 0)) touchy ''pong'' (Num 5) pong_emitter = Some (Normal, st')"
  by (simp add: pong_emitter_def ping_emitter_def touchy_def run_defs)

lemma ping_throws:
  "specific_throws (Suc 0) touchy ''ping'' (Num 5) ping_emitter [] (Fn 0) [Fn 2]
     (ping_emitter\<lparr>emissions := Suc 0\<rparr>) (Num 5)
     (record_call (CategoryLoop 0) (Fn 0) (Num 5) (ping_emitter\<lparr>emissions := Suc 0\<rparr>))"
  by (simp add: specific_throws_def eventListeners_def ping_emitter_def touchy_def run_defs)

lemma pong_throws:
  "wildcard_throws (Suc 0) touchy ''pong'' (Num 5) pong_emitter [] (Fn 3) [Fn 4]
     (built ''pong'' (Num 5) (pong_emitter\<lparr>emissions := Suc 0\<rparr>)) (EventData 0 ''pong'' (Num 5))
     (record_call (WildcardLoop 0) (Fn 3) (EventData 0 ''pong'' (Num 5))
        (built ''pong'' (Num 5) (pong_emitter\<lparr>emissions := Suc 0\<rparr>)))"
  by (simp add: wildcard_throws_def after_category_def built_def pong_emitter_def ping_emitter_def
      touchy_def run_defs)

lemma pong_object:
  "wildcardEventData (Suc 0) touchy ''pong'' (Num 5) pong_emitter
     = Some (EventData 0 ''pong'' (Num 5))"
  by (simp add: wildcardEventData_def after_category_def pong_emitter_def ping_emitter_def
      touchy_def run_defs)

theorem listener_fault_isolated_witness:
  "(\<exists>st' stb stc.
      emit (Suc (Suc 0)) touchy ''ping'' (Num 5) ping_emitter = Some (Normal, st') \<and>
      emit (Suc 0) touchy ''error'' (Error ''An error occurred in a listener.'') stb
        = Some (Normal, stc) \<and>
      calls_from (CategoryLoop 0) stc st' = [(Fn 2, Num 5)] \<and>
      calls_from (WildcardLoop 0) stc st' = [(Fn 3, EventData 2 ''ping'' (Num 5))]) \<and>
   (\<exists>st' stb stc.
      emit (Suc (Suc 0)) touchy ''pong'' (Num 5) pong_emitter = Some (Normal, st') \<and>
      emit (Suc 0) touchy ''error'' (Error ''An error occurred in a wildcard listener.'') stb
        = Some (Normal, stc) \<and>
      calls_from (WildcardLoop 0) stc st' = [(Fn 4, EventData 0 ''pong'' (Num 5))])"
proof (rule conjI)
  obtain st' where run: "emit (Suc (Suc 0)) touchy ''ping'' (Num 5) ping_emitter = Some (Normal, st')"
    using ping_touchy ..
  have i: "emissions ping_emitter = 0" by (simp add: ping_emitter_def new_emitter_def)
  let ?stb = "record_call (CategoryLoop 0) (Fn 0) (Num 5) (ping_emitter\<lparr>emissions := Suc 0\<rparr>)"
  from listener_fault_isolated[OF run, THEN conjunct1, THEN mp, OF ping_throws]
  obtain stc ws j where
    re: "emit (Suc 0) touchy ''error'' (caught ''An error occurred in a listener.'' (Num 5)) ?stb
           = Some (Normal, stc)"
    and c: "calls_from (CategoryLoop (emissions ping_emitter)) stc st' = map (\<lambda>r. (r, Num 5)) [Fn 2]"
    and s: "wildcard_snapshot (Suc 0) touchy ''ping'' (Num 5) ping_emitter = Some ws"
    and o: "wildcardEventData (Suc 0) touchy ''ping'' (Num 5) ping_emitter
              = Some (EventData j ''ping'' (Num 5))"
    and w: "calls_from (WildcardLoop (emissions ping_emitter)) stc st' =
              map (\<lambda>w. (w, EventData j ''ping'' (Num 5))) ws"
    by (elim exE conjE)
  from s o ping_snapshot have ws: "ws = [Fn 3]" and j: "j = 2" by simp_all
  from re have re': "emit (Suc 0) touchy ''error'' (Error ''An error occurred in a listener.'') ?stb
      = Some (Normal, stc)"
    by (simp add: caught_def)
  from c have c': "calls_from (CategoryLoop 0) stc st' = [(Fn 2, Num 5)]" by (simp add: i)
  from w ws j have w': "calls_from (WildcardLoop 0) stc st' = [(Fn 3, EventData 2 ''ping'' (Num 5))]"
    by (simp add: i)
  from run re' c' w' show "\<exists>st' stb stc.
      emit (Suc (Suc 0)) touchy ''ping'' (Num 5) ping_emitter = Some (Normal, st') \<and>
      emit (Suc 0) touchy ''error'' (Error ''An error occurred in a listener.'') stb
        = Some (Normal, stc) \<and>
      calls_from (CategoryLoop 0) stc st' = [(Fn 2, Num 5)] \<and>
      calls_from (WildcardLoop 0) stc st' = [(Fn 3, EventData 2 ''ping'' (Num 5))]"
    by (intro exI[of _ st'] exI[of _ ?stb] exI[of _ stc] conjI)
next
  obtain st' where run: "emit (Suc (Suc 0)) touchy ''pong'' (Num 5) pong_emitter = Some (Normal, st')"
    using pong_touchy ..
  have i: "emissions pong_emitter = 0"
    by (simp add: pong_emitter_def ping_emitter_def new_emitter_def)
  let ?stb = "record_call (WildcardLoop 0) (Fn 3) (EventData 0 ''pong'' (Num 5))
                (built ''pong'' (Num 5) (pong_emitter\<lparr>emissions := Suc 0\<rparr>))"
  from listener_fault_isolated[OF run, THEN conjunct2, THEN mp, OF pong_throws]
  obtain stc j where
    re: "emit (Suc 0) touchy ''error''
           (caught ''An error occurred in a wildcard listener.'' (EventData 0 ''pong'' (Num 5))) ?stb
           = Some (Normal, stc)"
    and o: "wildcardEventData (Suc 0) touchy ''pong'' (Num 5) pong_emitter
              = Some (EventData j ''pong'' (Num 5))"
    and w: "calls_from (WildcardLoop (emissions pong_emitter)) stc st' =
              map (\<lambda>r. (r, EventData j ''pong'' (Num 5))) [Fn 4]"
    by (elim exE conjE)
  from o pong_object have j: "j = 0" by simp
  from re have re': "emit (Suc 0) touchy ''error'' (Error ''An error occurred in a wildcard listener.'') ?stb
      = Some (Normal, stc)"
    by (simp add: caught_def)
  from w j have w': "calls_from (WildcardLoop 0) stc st' = [(Fn 4, EventData 0 ''pong'' (Num 5))]"
    by (simp add: i)
  from run re' w' show "\<exists>st' stb stc.
      emit (Suc (Suc 0)) touchy ''pong'' (Num 5) pong_emitter = Some (Normal, st') \<and>
      emit (Suc 0) touchy ''error'' (Error ''An error occurred in a wildcard listener.'') stb
        = Some (Normal, stc) \<and>
      calls_from (WildcardLoop 0) stc st' = [(Fn 4, EventData 0 ''pong'' (Num 5))]"
    by (intro exI[of _ st'] exI[of _ ?stb] exI[of _ stc] conjI)
qed

text \<open>
  Claim C1, as stated, fails: the wildcard listeners are not fixed when a listener of
  \<open>C\<close> throws. The listener of \<^verbatim>\<open>'error'\<close> below removes the wildcard listener; it runs when
  the listener of \<^verbatim>\<open>'z'\<close> throws, and then the wildcard listener does not receive the
  emission that it receives when the listener of \<^verbatim>\<open>'z'\<close> returns.
\<close>

theorem fault_changes_wildcard_delivery:
  "map_option calls
     (returned (emit (Suc (Suc 0))
        (bodies_of [Throw (Error ''a''), Return, CallOff ''*'' 3 (\<lambda>c. Return)])
        ''z'' (Num 1) error_emitter)) =
     Some [(CategoryLoop 0, Fn 0, Num 1), (CategoryLoop (Suc 0), Fn 2, Error ''a'')] \<and>
   map_option calls
     (returned (emit (Suc (Suc 0)) (bodies_of [Return, Return, CallOff ''*'' 3 (\<lambda>c. Return)])
        ''z'' (Num 1) error_emitter)) =
     Some [(CategoryLoop 0, Fn 0, Num 1), (WildcardLoop 0, Fn 3, EventData 0 ''z'' (Num 1))]"
  by (simp add: error_emitter_def run_defs)

text \<open>
  Claim C4, as amended. Let a listener throw \<open>F\<close> while one of the two loops of
  \<^verbatim>\<open>emit(C, payload)\<close> runs, and let the call of \<^verbatim>\<open>emit\<close> end in state \<open>st'\<close>. Then
  \<^verbatim>\<open>emit\<close> itself has been called for the event \<^verbatim>\<open>'error'\<close> in the state that the listener
  left, this emission has returned, and the record of \<open>st'\<close> holds its calls: of the
  listeners of \<^verbatim>\<open>'error'\<close> and of the wildcard listeners. Its payload is \<open>F\<close> itself when
  \<open>F\<close> is an \<^verbatim>\<open>Error\<close>; otherwise it is a new \<^verbatim>\<open>Error\<close> with a fixed message, one for each
  loop.
\<close>

theorem fault_reemitted:
  assumes "emit (Suc n) code C p st = Some (c, st')"
  shows "(specific_throws n code C p st pre l post sta F stb \<longrightarrow>
            reemitted n code
              (if instanceofError F then F else Error ''An error occurred in a listener.'') stb st') \<and>
         (wildcard_throws n code C p st pre l post sta F stb \<longrightarrow>
            reemitted n code
              (if instanceofError F then F else Error ''An error occurred in a wildcard listener.'')
              stb st')"
proof (intro conjI impI)
  assume "specific_throws n code C p st pre l post sta F stb"
  from specific_after_throw[OF assms this, THEN conjunct2, THEN conjunct2]
  show "reemitted n code
      (if instanceofError F then F else Error ''An error occurred in a listener.'') stb st'"
    unfolding caught_def .
next
  assume "wildcard_throws n code C p st pre l post sta F stb"
  from wildcard_after_throw[OF assms this, THEN conjunct2, THEN conjunct2]
  show "reemitted n code
      (if instanceofError F then F else Error ''An error occurred in a wildcard listener.'') stb st'"
    unfolding caught_def .
qed

lemma error_run:
  "\<exists>st'. emit (Suc (Suc 0)) failing ''z'' (Num 1) error_emitter = Some (Normal, st')"
  by (simp add: error_emitter_def failing_def run_defs)

lemma error_throws:
  "specific_throws (Suc 0) failing ''z'' (Num 1) error_emitter [] (Fn 0) []
     (error_emitter\<lparr>emissions := Suc 0\<rparr>) (Error ''disk full'')
     (record_call (CategoryLoop 0) (Fn 0) (Num 1) (error_emitter\<lparr>emissions := Suc 0\<rparr>))"
  by (simp add: specific_throws_def eventListeners_def error_emitter_def failing_def run_defs)

lemma error_snapshot:
  "eventListeners ''error''
     (record_call (CategoryLoop 0) (Fn 0) (Num 1) (error_emitter\<lparr>emissions := Suc 0\<rparr>)) = [Fn 2]"
  "wildcard_snapshot 0 failing ''error'' (Error ''disk full'')
     (record_call (CategoryLoop 0) (Fn 0) (Num 1) (error_emitter\<lparr>emissions := Suc 0\<rparr>)) = Some [Fn 3]"
  "wildcardEventData 0 failing ''error'' (Error ''disk full'')
     (record_call (CategoryLoop 0) (Fn 0) (Num 1) (error_emitter\<lparr>emissions := Suc 0\<rparr>))
     = Some (EventData 0 ''error'' (Error ''disk full''))"
  "emissions (record_call (CategoryLoop 0) (Fn 0) (Num 1) (error_emitter\<lparr>emissions := Suc 0\<rparr>))
     = Suc 0"
  by (simp_all add: eventListeners_def wildcard_snapshot_def wildcardEventData_def
      after_category_def error_emitter_def failing_def run_defs)

theorem fault_reemitted_witness:
  "(\<exists>st'. emit (Suc (Suc 0)) failing ''z'' (Num 1) error_emitter = Some (Normal, st') \<and>
      reemitted (Suc 0) failing (Error ''disk full'')
        (record_call (CategoryLoop 0) (Fn 0) (Num 1) (error_emitter\<lparr>emissions := Suc 0\<rparr>)) st' \<and>
      calls_of (Suc 0)
        (record_call (CategoryLoop 0) (Fn 0) (Num 1) (error_emitter\<lparr>emissions := Suc 0\<rparr>)) st' =
        [(CategoryLoop (Suc 0), Fn 2, Error ''disk full''),
         (WildcardLoop (Suc 0), Fn 3, EventData 0 ''error'' (Error ''disk full''))]) \<and>
   (\<exists>st'. emit (Suc (Suc 0)) touchy ''ping'' (Num 5) ping_emitter = Some (Normal, st') \<and>
      reemitted (Suc 0) touchy (Error ''An error occurred in a listener.'')
        (record_call (CategoryLoop 0) (Fn 0) (Num 5) (ping_emitter\<lparr>emissions := Suc 0\<rparr>)) st') \<and>
   (\<exists>st'. emit (Suc (Suc 0)) touchy ''pong'' (Num 5) pong_emitter = Some (Normal, st') \<and>
      reemitted (Suc 0) touchy (Error ''An error occurred in a wildcard listener.'')
        (record_call (WildcardLoop 0) (Fn 3) (EventData 0 ''pong'' (Num 5))
           (built ''pong'' (Num 5) (pong_emitter\<lparr>emissions := Suc 0\<rparr>))) st')"
proof (intro conjI)
  let ?stb = "record_call (CategoryLoop 0) (Fn 0) (Num 1) (error_emitter\<lparr>emissions := Suc 0\<rparr>)"
  obtain st' where run: "emit (Suc (Suc 0)) failing ''z'' (Num 1) error_emitter = Some (Normal, st')"
    using error_run ..
  from fault_reemitted[OF run, THEN conjunct1, THEN mp, OF error_throws]
  have r: "reemitted (Suc 0) failing (Error ''disk full'') ?stb st'" by simp
  then obtain m ws d where
    m: "m = 0" and
    s: "wildcard_snapshot m failing ''error'' (Error ''disk full'') ?stb = Some ws" and
    o: "wildcardEventData m failing ''error'' (Error ''disk full'') ?stb = Some d" and
    co: "calls_of (emissions ?stb) ?stb st' =
       map (\<lambda>l. (CategoryLoop (emissions ?stb), l, Error ''disk full'')) (eventListeners ''error'' ?stb) @
       map (\<lambda>l. (WildcardLoop (emissions ?stb), l, d)) ws"
    unfolding reemitted_def by (elim exE conjE) simp
  from s o have "ws = [Fn 3]" "d = EventData 0 ''error'' (Error ''disk full'')"
    unfolding m error_snapshot by simp_all
  with co have "calls_of (Suc 0) ?stb st' =
      [(CategoryLoop (Suc 0), Fn 2, Error ''disk full''),
       (WildcardLoop (Suc 0), Fn 3, EventData 0 ''error'' (Error ''disk full''))]"
    unfolding error_snapshot by simp
  with run r show "\<exists>st'. emit (Suc (Suc 0)) failing ''z'' (Num 1) error_emitter = Some (Normal, st') \<and>
      reemitted (Suc 0) failing (Error ''disk full'') ?stb st' \<and>
      calls_of (Suc 0) ?stb st' =
        [(CategoryLoop (Suc 0), Fn 2, Error ''disk full''),
         (WildcardLoop (Suc 0), Fn 3, EventData 0 ''error'' (Error ''disk full''))]"
    by (intro exI[of _ st'] conjI)
next
  obtain st' where run: "emit (Suc (Suc 0)) touchy ''ping'' (Num 5) ping_emitter = Some (Normal, st')"
    using ping_touchy ..
  from fault_reemitted[OF run, THEN conjunct1, THEN mp, OF ping_throws]
  have "reemitted (Suc 0) touchy (Error ''An error occurred in a listener.'')
     (record_call (CategoryLoop 0) (Fn 0) (Num 5) (ping_emitter\<lparr>emissions := Suc 0\<rparr>)) st'"
    by simp
  with run show "\<exists>st'. emit (Suc (Suc 0)) touchy ''ping'' (Num 5) ping_emitter = Some (Normal, st') \<and>
      reemitted (Suc 0) touchy (Error ''An error occurred in a listener.'')
        (record_call (CategoryLoop 0) (Fn 0) (Num 5) (ping_emitter\<lparr>emissions := Suc 0\<rparr>)) st'"
    by (intro exI[of _ st'] conjI)
next
  obtain st' where run: "emit (Suc (Suc 0)) touchy ''pong'' (Num 5) pong_emitter = Some (Normal, st')"
    using pong_touchy ..
  from fault_reemitted[OF run, THEN conjunct2, THEN mp, OF pong_throws]
  have "reemitted (Suc 0) touchy (Error ''An error occurred in a wildcard listener.'')
     (record_call (WildcardLoop 0) (Fn 3) (EventData 0 ''pong'' (Num 5))
        (built ''pong'' (Num 5) (pong_emitter\<lparr>emissions := Suc 0\<rparr>))) st'"
    by simp
  with run show "\<exists>st'. emit (Suc (Suc 0)) touchy ''pong'' (Num 5) pong_emitter = Some (Normal, st') \<and>
      reemitted (Suc 0) touchy (Error ''An error occurred in a wildcard listener.'')
        (record_call (WildcardLoop 0) (Fn 3) (EventData 0 ''pong'' (Num 5))
           (built ''pong'' (Num 5) (pong_emitter\<lparr>emissions := Suc 0\<rparr>))) st'"
    by (intro exI[of _ st'] conjI)
qed

text \<open>
  Claim C4, as stated, fails: a fault that is not an \<^verbatim>\<open>Error\<close> is not carried by the error
  event. The listener of \<^verbatim>\<open>'error'\<close> receives the same value whether the number 42 or a
  string was thrown.
\<close>

theorem fault_not_carried:
  "map_option calls
     (returned (emit (Suc (Suc 0)) (bodies_of [Throw (Num 42)]) ''z'' Undefined
        (snd (on ''error'' (Fn 2) (snd (on ''z'' (Fn 0) (new_emitter ()))))))) =
     Some [(CategoryLoop 0, Fn 0, Undefined),
           (CategoryLoop (Suc 0), Fn 2, Error ''An error occurred in a listener.'')] \<and>
   map_option calls
     (returned (emit (Suc (Suc 0)) (bodies_of [Throw (Str ''disk full'')]) ''z'' Undefined
        (snd (on ''error'' (Fn 2) (snd (on ''z'' (Fn 0) (new_emitter ()))))))) =
     Some [(CategoryLoop 0, Fn 0, Undefined),
           (CategoryLoop (Suc 0), Fn 2, Error ''An error occurred in a listener.'')]"
  by (simp add: run_defs)

text \<open>
  Claim C3. The wrapper of \<^verbatim>\<open>once\<close> calls \<^verbatim>\<open>off\<close> after the listener, so a listener that
  throws leaves its wrapper registered: the first \<^verbatim>\<open>emit('x', 1)\<close> returns, the count is
  still 1 after it, and the second \<^verbatim>\<open>emit('x', 2)\<close> calls the listener again. With a
  listener that returns, the count is 0 and the second emission calls nothing.
\<close>

theorem once_wrapper_stays_after_throw:
  "map_option (getListenerCount ''x'')
     (returned (emit (Suc (Suc 0)) failing ''x'' (Num 1) (snd (once ''x'' (Fn 0) (new_emitter ())))))
     = Some 1 \<and>
   map_option calls
     (Option.bind
        (returned (emit (Suc (Suc 0)) failing ''x'' (Num 1) (snd (once ''x'' (Fn 0) (new_emitter ())))))
        (\<lambda>st. returned (emit (Suc (Suc 0)) failing ''x'' (Num 2) st))) =
     Some [(CategoryLoop 0, OnceWrapper 0 ''x'' (Fn 0), Num 1),
           (OnceBody (OnceWrapper 0 ''x'' (Fn 0)), Fn 0, Num 1),
           (CategoryLoop 2, OnceWrapper 0 ''x'' (Fn 0), Num 2),
           (OnceBody (OnceWrapper 0 ''x'' (Fn 0)), Fn 0, Num 2)] \<and>
   map_option (getListenerCount ''x'')
     (returned (emit (Suc (Suc 0)) (bodies_of []) ''x'' (Num 1)
        (snd (once ''x'' (Fn 0) (new_emitter ()))))) = Some 0 \<and>
   map_option calls
     (Option.bind
        (returned (emit (Suc (Suc 0)) (bodies_of []) ''x'' (Num 1)
           (snd (once ''x'' (Fn 0) (new_emitter ())))))
        (\<lambda>st. returned (emit (Suc (Suc 0)) (bodies_of []) ''x'' (Num 2) st))) =
     Some [(CategoryLoop 0, OnceWrapper 0 ''x'' (Fn 0), Num 1),
           (OnceBody (OnceWrapper 0 ''x'' (Fn 0)), Fn 0, Num 1)]"
  by (simp add: failing_def getListenerCount_def run_defs)

text \<open>
  A listener of \<^verbatim>\<open>'error'\<close> that throws whatever it is given, first in its set.
\<close>

lemma error_listener_never_returns:
  assumes "\<And>a. \<exists>v. code k a = Throw v"
  shows "listeners st ''error'' = Some (Fn k # rest) \<Longrightarrow> emit n code ''error'' p st = None"
proof (induction n arbitrary: p st)
  case 0
  show ?case by simp
next
  case (Suc n)
  from assms obtain v where v: "code k p = Throw v" by blast
  let ?st1 = "record_call (CategoryLoop (emissions st)) (Fn k) p (st\<lparr>emissions := Suc (emissions st)\<rparr>)"
  have "listeners ?st1 ''error'' = Some (Fn k # rest)"
    using Suc.prems by (simp add: record_call_def)
  then have "emit n code ''error'' (caught ''An error occurred in a listener.'' v) ?st1 = None"
    by (rule Suc.IH)
  then show ?case using Suc.prems v by (simp add: notify_specific_def property_def)
qed

text \<open>
  Claim C5. A fault of a listener of \<^verbatim>\<open>'error'\<close> is passed to \<^verbatim>\<open>emit('error', ...)\<close>
  like any other, with no bound: when the listener always throws, no depth of nesting
  suffices and \<^verbatim>\<open>emit\<close> does not return, be it called for \<^verbatim>\<open>'error'\<close> or for an event
  of which a listener throws. The second listener of \<^verbatim>\<open>'z'\<close> is then never called.
\<close>

theorem throwing_error_listener_recurses:
  "emit n (bodies_of [Throw (Error ''handler failed'')]) ''error'' p
     (snd (on ''error'' (Fn 0) (new_emitter h))) = None \<and>
   emit n (bodies_of [Throw (Error ''handler failed'')]) ''z'' p
     (snd (on ''error'' (Fn 0) (snd (on ''z'' (Fn 2) (snd (on ''z'' (Fn 0) (new_emitter h))))))) = None"
proof
  let ?code = "bodies_of [Throw (Error ''handler failed'')] :: nat \<Rightarrow> val \<Rightarrow> 'a body"
  have always: "\<And>a. \<exists>v. ?code 0 a = Throw v" by (simp add: bodies_of_def)
  show "emit n ?code ''error'' p (snd (on ''error'' (Fn 0) (new_emitter h))) = None"
    by (rule error_listener_never_returns[where code="?code" and k=0 and rest="[]", OF always])
       (simp add: run_defs)
  show "emit n ?code ''z'' p
     (snd (on ''error'' (Fn 0) (snd (on ''z'' (Fn 2) (snd (on ''z'' (Fn 0) (new_emitter h))))))) = None"
  proof (cases n)
    case 0
    then show ?thesis by simp
  next
    case (Suc m)
    let ?st = "snd (on ''error'' (Fn 0) (snd (on ''z'' (Fn 2) (snd (on ''z'' (Fn 0) (new_emitter h))))))"
    let ?st1 = "record_call (CategoryLoop 0) (Fn 0) p (?st\<lparr>emissions := Suc 0\<rparr>)"
    have "listeners ?st1 ''error'' = Some [Fn 0]"
      by (simp add: run_defs)
    then have "emit m ?code ''error'' (Error ''handler failed'') ?st1 = None"
      by (rule error_listener_never_returns[where code="?code" and k=0 and rest="[]", OF always])
    then show ?thesis
      using Suc by (simp add: run_defs)
  qed
qed

end
